theory Spec2Isabelle
  imports Main "HOL-Library.Word"
begin

section \<open>Values of the Python program\<close>

text \<open>
  The program is \<^verbatim>\<open>src/lxmfapi.py\<close>: a class \<^verbatim>\<open>LXMFAPI\<close> with the class attributes
  \<^verbatim>\<open>delivery_callbacks\<close>, \<^verbatim>\<open>receipts\<close>, \<^verbatim>\<open>queue\<close> and \<^verbatim>\<open>announce_time\<close>, its methods
  \<^verbatim>\<open>_announce\<close>, \<^verbatim>\<open>_message_received\<close>, \<^verbatim>\<open>send\<close>, \<^verbatim>\<open>received\<close>, the body of the
  queue processor thread, and the HTTP handler \<^verbatim>\<open>send_message\<close>.

  Python \<^verbatim>\<open>bytes\<close> are lists of 8-bit words, Python \<^verbatim>\<open>int\<close> is \<^typ>\<open>int\<close>, and a Python
  \<^verbatim>\<open>str\<close> is a \<^typ>\<open>string\<close> holding its UTF-8 encoding.
\<close>

type_synonym bytes = "8 word list"

datatype exn =
    ValueError string
  | UnicodeDecodeError string
  | Exception string

fun exn_str :: "exn \<Rightarrow> string" where
  "exn_str (ValueError t) = t"
| "exn_str (UnicodeDecodeError t) = t"
| "exn_str (Exception t) = t"

subsection \<open>\<^verbatim>\<open>RNS.hexrep(data, delimit=False)\<close> and \<^verbatim>\<open>bytes.fromhex\<close>\<close>

definition hex_digit :: "nat \<Rightarrow> char" where
  "hex_digit d = (if d < 10 then char_of (48 + d) else char_of (87 + d))"

text \<open>\<^verbatim>\<open>"".join("{:02x}".format(c) for c in data)\<close>\<close>

definition hexrep :: "bytes \<Rightarrow> string" where
  "hexrep data = concat (map (\<lambda>c. [hex_digit (unat c div 16), hex_digit (unat c mod 16)]) data)"

definition hex_val :: "char \<Rightarrow> nat option" where
  "hex_val c =
     (let n = (of_char c :: nat) in
      if 48 \<le> n \<and> n \<le> 57 then Some (n - 48)
      else if 97 \<le> n \<and> n \<le> 102 then Some (n - 87)
      else if 65 \<le> n \<and> n \<le> 70 then Some (n - 55)
      else None)"

text \<open>ASCII whitespace: space, and the characters 9 to 13.\<close>

definition is_space :: "char \<Rightarrow> bool" where
  "is_space c = (let n = (of_char c :: nat) in n = 32 \<or> (9 \<le> n \<and> n \<le> 13))"

text \<open>
  \<^verbatim>\<open>bytes.fromhex\<close>: two hexadecimal digits per byte, ASCII whitespace between the bytes
  is skipped; anything else raises \<^verbatim>\<open>ValueError\<close>, which is \<^const>\<open>None\<close> here.
\<close>

fun fromhex :: "string \<Rightarrow> bytes option" where
  "fromhex [] = Some []"
| "fromhex (c # cs) =
     (if is_space c then fromhex cs
      else case hex_val c of
        None \<Rightarrow> None
      | Some h \<Rightarrow>
          (case cs of
            [] \<Rightarrow> None
          | d # ds \<Rightarrow>
              (case hex_val d of
                None \<Rightarrow> None
              | Some l \<Rightarrow> map_option ((#) (of_nat (16 * h + l))) (fromhex ds))))"

subsection \<open>\<^verbatim>\<open>bytes.decode('utf-8')\<close>\<close>

definition cont :: "8 word \<Rightarrow> bool" where
  "cont b = (128 \<le> unat b \<and> unat b \<le> 191)"

text \<open>The well-formed byte sequences of UTF-8 (no overlong forms, no surrogates).\<close>

fun valid_utf8 :: "bytes \<Rightarrow> bool" where
  "valid_utf8 [] = True"
| "valid_utf8 (b # bs) =
     (let n = unat b in
      if n < 128 then valid_utf8 bs
      else if 194 \<le> n \<and> n \<le> 223 then
        (case bs of b1 # r \<Rightarrow> cont b1 \<and> valid_utf8 r | _ \<Rightarrow> False)
      else if n = 224 then
        (case bs of b1 # b2 # r \<Rightarrow> 160 \<le> unat b1 \<and> unat b1 \<le> 191 \<and> cont b2 \<and> valid_utf8 r
         | _ \<Rightarrow> False)
      else if (225 \<le> n \<and> n \<le> 236) \<or> n = 238 \<or> n = 239 then
        (case bs of b1 # b2 # r \<Rightarrow> cont b1 \<and> cont b2 \<and> valid_utf8 r | _ \<Rightarrow> False)
      else if n = 237 then
        (case bs of b1 # b2 # r \<Rightarrow> 128 \<le> unat b1 \<and> unat b1 \<le> 159 \<and> cont b2 \<and> valid_utf8 r
         | _ \<Rightarrow> False)
      else if n = 240 then
        (case bs of b1 # b2 # b3 # r \<Rightarrow>
           144 \<le> unat b1 \<and> unat b1 \<le> 191 \<and> cont b2 \<and> cont b3 \<and> valid_utf8 r
         | _ \<Rightarrow> False)
      else if 241 \<le> n \<and> n \<le> 243 then
        (case bs of b1 # b2 # b3 # r \<Rightarrow> cont b1 \<and> cont b2 \<and> cont b3 \<and> valid_utf8 r
         | _ \<Rightarrow> False)
      else if n = 244 then
        (case bs of b1 # b2 # b3 # r \<Rightarrow>
           128 \<le> unat b1 \<and> unat b1 \<le> 143 \<and> cont b2 \<and> cont b3 \<and> valid_utf8 r
         | _ \<Rightarrow> False)
      else False)"

definition decode_utf8 :: "bytes \<Rightarrow> exn + string" where
  "decode_utf8 bs =
     (if valid_utf8 bs then Inr (map (\<lambda>b. char_of (unat b)) bs)
      else Inl (UnicodeDecodeError ''utf-8 codec cannot decode bytes''))"

subsection \<open>\<^verbatim>\<open>str(n)\<close> and \<^verbatim>\<open>int(line)\<close>\<close>

fun str_nat :: "nat \<Rightarrow> string" where
  "str_nat n =
     (if n < 10 then [char_of (48 + n)]
      else str_nat (n div 10) @ [char_of (48 + n mod 10)])"

declare str_nat.simps [simp del]

definition str_int :: "int \<Rightarrow> string" where
  "str_int i = (if i < 0 then CHR ''-'' # str_nat (nat (- i)) else str_nat (nat i))"

definition is_digit :: "char \<Rightarrow> bool" where
  "is_digit c = (48 \<le> (of_char c :: nat) \<and> (of_char c :: nat) \<le> 57)"

definition digit_val :: "char \<Rightarrow> nat" where
  "digit_val c = of_char c - 48"

text \<open>
  The digits after the first one: single underscores are allowed between digits, as in
  \<^verbatim>\<open>int("1_000")\<close>.
\<close>

fun digits :: "nat \<Rightarrow> string \<Rightarrow> nat option" where
  "digits acc [] = Some acc"
| "digits acc (c # cs) =
     (if is_digit c then digits (10 * acc + digit_val c) cs
      else if c = CHR ''_'' then
        (case cs of
          [] \<Rightarrow> None
        | d # ds \<Rightarrow> if is_digit d then digits (10 * acc + digit_val d) ds else None)
      else None)"

definition unsigned :: "string \<Rightarrow> nat option" where
  "unsigned s =
     (case s of
       [] \<Rightarrow> None
     | c # cs \<Rightarrow> if is_digit c then digits (digit_val c) cs else None)"

definition strip :: "string \<Rightarrow> string" where
  "strip s = rev (dropWhile is_space (rev (dropWhile is_space s)))"

text \<open>\<^verbatim>\<open>int(s)\<close> in base 10: surrounding whitespace, an optional sign, digits.\<close>

definition py_int :: "string \<Rightarrow> exn + int" where
  "py_int s =
     (case strip s of
       [] \<Rightarrow> Inl (ValueError ''invalid literal for int() with base 10'')
     | c # cs \<Rightarrow>
         (case (if c = CHR ''-'' \<or> c = CHR ''+'' then unsigned cs else unsigned (c # cs)) of
           None \<Rightarrow> Inl (ValueError ''invalid literal for int() with base 10'')
         | Some n \<Rightarrow> Inr (if c = CHR ''-'' then - int n else int n)))"

text \<open>
  \<^verbatim>\<open>f.readline()\<close> on a file opened in text mode: the text up to the first line end
  (a line feed or a carriage return), with the line end as one line feed.
\<close>

definition readline :: "string \<Rightarrow> string" where
  "readline txt =
     (let l = takeWhile (\<lambda>c. c \<noteq> CHR 0x0A \<and> c \<noteq> CHR 0x0D) txt
      in if length l < length txt then l @ [CHR 0x0A] else l)"

section \<open>The state of the program and its collaborators\<close>

datatype identity = Identity bytes

datatype direction = Dir_IN | Dir_OUT

datatype dest_type = SINGLE | GROUP | PLAIN | LINK

text \<open>\<^verbatim>\<open>RNS.Destination(identity, direction, type, app_name, aspect)\<close>\<close>

datatype destination = Destination identity direction dest_type string string

datatype delivery_method = OPPORTUNISTIC | DIRECT | PROPAGATED

text \<open>An outbound \<^verbatim>\<open>LXMessage\<close>, as \<^verbatim>\<open>send\<close> builds it.\<close>

record lxmessage =
  lxm_destination :: destination
  lxm_source :: bytes
  lxm_content :: string
  lxm_title :: string
  desired_method :: delivery_method
  try_propagation_on_fail :: bool

text \<open>An inbound message, as the router hands it to \<^verbatim>\<open>_message_received\<close>.\<close>

record inbound =
  source_hash :: bytes
  msg_hash :: bytes
  msg_content :: bytes

text \<open>
  The closure \<^verbatim>\<open>reply\<close> of \<^verbatim>\<open>_message_received\<close> is \<^verbatim>\<open>lambda msg: self.send(sender, msg)\<close>;
  it is represented by the \<^verbatim>\<open>sender\<close> it captures.
\<close>

datatype closure = Send_to string

text \<open>The \<^verbatim>\<open>SimpleNamespace\<close> passed to every callback.\<close>

record event =
  lxmf :: inbound
  reply :: closure
  sender :: string
  content :: string
  hash :: string

datatype loglevel = LOG_ERROR | LOG_INFO | LOG_DEBUG

text \<open>
  The calls the program makes to its collaborators, in the order it makes them:
  \<^verbatim>\<open>RNS.log\<close>, writing the announce file, \<^verbatim>\<open>self.local.announce()\<close>,
  \<^verbatim>\<open>RNS.Transport.request_path\<close>, \<^verbatim>\<open>self.queue.put\<close> (when it is called),
  \<^verbatim>\<open>self.router.handle_outbound\<close>, and the call of a registered callback.
\<close>

datatype effect =
    Log string loglevel
  | Write_file string
  | Announce
  | Request_path bytes
  | Queue_put lxmessage
  | Handle_outbound lxmessage
  | Call nat event

text \<open>
  A registered callback is a function object: \<open>cb_id\<close> is its identity, \<open>cb_fun\<close> what
  a call does to the world outside the class (for a websocket subscriber, its own
  \<^verbatim>\<open>asyncio.Queue\<close>), with the exception it raises, if any.
\<close>

datatype 'w callback = Callback (cb_id: nat) (cb_fun: "event \<Rightarrow> 'w \<Rightarrow> exn option \<times> 'w")

text \<open>\<^verbatim>\<open>MessageRequest\<close>, the body of a request to \<^verbatim>\<open>POST /send\<close>.\<close>

record message_request =
  req_destination :: string
  req_message :: string
  req_title :: string

text \<open>
  What the event loop runs, all of it on its one thread: the handler \<^verbatim>\<open>send_message\<close>
  of a request to \<^verbatim>\<open>POST /send\<close>, \<^verbatim>\<open>websocket_endpoint\<close> up to
  \<^verbatim>\<open>api.received(message_callback)\<close>, and the \<^verbatim>\<open>finally\<close> clause of
  \<^verbatim>\<open>websocket_endpoint\<close>, which removes the callback.
\<close>

datatype 'w request =
    Post message_request
  | Register "'w callback"
  | Unregister "'w callback"

text \<open>
  The class attributes, and what the program's threads share beside them. \<open>pending\<close> is
  the message of the \<^verbatim>\<open>self.queue.put(lxm)\<close> that has been called and has not returned:
  the handlers are \<^verbatim>\<open>async def\<close> and call \<^verbatim>\<open>api.send\<close> directly, so it is the event loop
  thread that waits in \<^verbatim>\<open>put\<close>, and there is at most one such call. \<open>backlog\<close> holds, in
  their order, the requests that have arrived since and that the event loop has not
  begun to handle.
\<close>

record 'w lxmfapi =
  delivery_callbacks :: "'w callback list"
  receipts :: "string list"
  queue :: "lxmessage list"
  pending :: "lxmessage option"
  backlog :: "'w request list"
  announce_time :: int
  local_hash :: bytes
  announce_file :: "string option"
  identities :: "bytes \<Rightarrow> identity option"
  processor_alive :: bool
  world :: 'w
  trace :: "effect list"

text \<open>
  A call returns, raises, or blocks (only \<^verbatim>\<open>Queue.put\<close> on a full queue blocks); the
  state is the one the call leaves behind, or the one in which it waits.
\<close>

datatype 's outcome = Returns 's | Raises exn 's | Blocks 's

fun state_of :: "'s outcome \<Rightarrow> 's" where
  "state_of (Returns s) = s"
| "state_of (Raises e s) = s"
| "state_of (Blocks s) = s"

text \<open>
  The class attributes as the class body sets them
  (\<^verbatim>\<open>delivery_callbacks = []\<close>, \<^verbatim>\<open>receipts = []\<close>, \<^verbatim>\<open>queue = Queue(maxsize = 5)\<close>,
  \<^verbatim>\<open>announce_time = 600\<close>), the processor thread started, and the environment given.
\<close>

definition maxsize :: nat where
  "maxsize = 5"

definition initial :: "bytes \<Rightarrow> string option \<Rightarrow> (bytes \<Rightarrow> identity option) \<Rightarrow> 'w \<Rightarrow> 'w lxmfapi" where
  "initial loc file ids w =
     \<lparr>delivery_callbacks = [], receipts = [], queue = [], pending = None, backlog = [],
      announce_time = 600,
      local_hash = loc, announce_file = file, identities = ids, processor_alive = True,
      world = w, trace = []\<rparr>"

definition emit :: "effect \<Rightarrow> 'w lxmfapi \<Rightarrow> 'w lxmfapi" where
  "emit e s = s\<lparr>trace := trace s @ [e]\<rparr>"

definition rns_log :: "string \<Rightarrow> loglevel \<Rightarrow> 'w lxmfapi \<Rightarrow> 'w lxmfapi" where
  "rns_log text level s = emit (Log text level) s"

section \<open>\<^verbatim>\<open>LXMFAPI._announce\<close>\<close>

text \<open>
  Lines 60 to 64: the deadline is the integer on the first line of the announce file,
  and 1 when there is no such file. \<^const>\<open>None\<close> is the missing file.
\<close>


definition read_deadline :: "'w lxmfapi \<Rightarrow> exn + int" where
  "read_deadline s =
     (case announce_file s of
        Some txt \<Rightarrow> py_int (readline txt)
      | None \<Rightarrow> Inr 1)"

text \<open>
  \<^verbatim>\<open>time.time()\<close> is read twice, for the comparison and for the new deadline: \<open>now1\<close>
  and \<open>now2\<close> are the two readings, truncated by \<^verbatim>\<open>int\<close>.
\<close>

definition announce :: "int \<Rightarrow> int \<Rightarrow> 'w lxmfapi \<Rightarrow> 'w lxmfapi outcome" where
  "announce now1 now2 s =
     (case read_deadline s of
        Inl e \<Rightarrow> Raises e s
      | Inr deadline \<Rightarrow>
          if deadline > now1 then Returns (rns_log ''Recent announcement'' LOG_DEBUG s)
          else
            let next_announce = now2 + announce_time s;
                s1 = emit (Write_file (str_int next_announce))
                       (s\<lparr>announce_file := Some (str_int next_announce)\<rparr>);
                s2 = emit Announce s1
            in Returns (rns_log ''Announcement sent, expr set 1800 seconds'' LOG_INFO s2))"

section \<open>The queue and its processor\<close>

text \<open>
  \<^verbatim>\<open>Queue.put\<close> with the defaults \<^verbatim>\<open>block=True\<close>, \<^verbatim>\<open>timeout=None\<close>: the item is appended
  when the queue holds fewer than \<^verbatim>\<open>maxsize\<close> items; \<^const>\<open>None\<close> when it holds \<^verbatim>\<open>maxsize\<close>
  and the caller has to wait.
\<close>

definition put :: "lxmessage \<Rightarrow> lxmessage list \<Rightarrow> lxmessage list option" where
  "put lxm q = (if length q < maxsize then Some (q @ [lxm]) else None)"

text \<open>One iteration of the \<^verbatim>\<open>while True\<close> loop of \<^verbatim>\<open>process_queue\<close>, without the sleep.\<close>

definition process_queue :: "int \<Rightarrow> int \<Rightarrow> 'w lxmfapi \<Rightarrow> 'w lxmfapi outcome" where
  "process_queue now1 now2 s =
     announce now1 now2
       (case queue s of
          [] \<Rightarrow> s
        | lxm # rest \<Rightarrow> emit (Handle_outbound lxm) (s\<lparr>queue := rest\<rparr>))"

section \<open>\<^verbatim>\<open>LXMFAPI.received\<close> and \<^verbatim>\<open>LXMFAPI._message_received\<close>\<close>

definition received :: "'w callback \<Rightarrow> 'w lxmfapi \<Rightarrow> 'w lxmfapi" where
  "received function s = s\<lparr>delivery_callbacks := delivery_callbacks s @ [function]\<rparr>"

text \<open>
  The test and the update of the recency list, lines 84 to 87:
  \<^verbatim>\<open>if receipt not in self.receipts\<close>, \<^verbatim>\<open>append\<close>, and \<^verbatim>\<open>pop(0)\<close> when the list is longer
  than 100. The result says whether the receipt was new.
\<close>

definition check_and_record :: "string \<Rightarrow> string list \<Rightarrow> bool \<times> string list" where
  "check_and_record receipt rs =
     (if receipt \<notin> set rs then
        (let rs1 = rs @ [receipt]
         in (True, if length rs1 > 100 then tl rs1 else rs1))
      else (False, rs))"

text \<open>The \<^verbatim>\<open>for callback in self.delivery_callbacks\<close> loop; an exception leaves it.\<close>

fun call_all :: "'w callback list \<Rightarrow> inbound \<Rightarrow> string \<Rightarrow> string \<Rightarrow> 'w lxmfapi \<Rightarrow> 'w lxmfapi outcome" where
  "call_all [] message sndr receipt s = Returns s"
| "call_all (callback # rest) message sndr receipt s =
     (case decode_utf8 (msg_content message) of
        Inl e \<Rightarrow> Raises e s
      | Inr text \<Rightarrow>
          let msg = \<lparr>lxmf = message, reply = Send_to sndr, sender = sndr, content = text,
                     hash = receipt\<rparr>;
              s1 = emit (Call (cb_id callback) msg) s
          in case cb_fun callback msg (world s1) of
               (Some e, w) \<Rightarrow> Raises e (s1\<lparr>world := w\<rparr>)
             | (None, w) \<Rightarrow> call_all rest message sndr receipt (s1\<lparr>world := w\<rparr>))"

definition message_received :: "inbound \<Rightarrow> 'w lxmfapi \<Rightarrow> 'w lxmfapi outcome" where
  "message_received message s =
     (let sndr = hexrep (source_hash message);
          receipt = hexrep (msg_hash message);
          s0 = rns_log (''Message receipt <'' @ receipt @ ''>'') LOG_INFO s
      in case check_and_record receipt (receipts s0) of
           (True, rs) \<Rightarrow>
             call_all (delivery_callbacks s0) message sndr receipt (s0\<lparr>receipts := rs\<rparr>)
         | (False, rs) \<Rightarrow> Returns s0)"

section \<open>\<^verbatim>\<open>LXMFAPI.send\<close> and the handler of \<^verbatim>\<open>POST /send\<close>\<close>

text \<open>\<^verbatim>\<open>RNS.Reticulum.TRUNCATED_HASHLENGTH\<close>, in bits.\<close>

definition TRUNCATED_HASHLENGTH :: nat where
  "TRUNCATED_HASHLENGTH = 128"

text \<open>
  \<^verbatim>\<open>send\<close>, lines 99 to 117. No branch raises: a destination that is not hexadecimal
  is caught and logged, the other failures are logged. The two long log texts of the
  branch for an identity that is not known are given by their first sentence, and
  \<^verbatim>\<open>self.local\<close> by its hash. On a full queue \<^verbatim>\<open>self.queue.put(lxm)\<close> does not return: the
  call stays pending with its message.
\<close>

definition send :: "string \<Rightarrow> string \<Rightarrow> string \<Rightarrow> 'w lxmfapi \<Rightarrow> 'w lxmfapi outcome" where
  "send dest message title s =
     (case fromhex dest of
        None \<Rightarrow> Returns (rns_log ''Invalid destination hash'' LOG_ERROR s)
      | Some h \<Rightarrow>
          if \<not> length h = TRUNCATED_HASHLENGTH div 8 then
            Returns (rns_log ''Invalid destination hash length'' LOG_ERROR s)
          else
            (case identities s h of
               None \<Rightarrow>
                 Returns
                   (rns_log ''OK, a path was requested.'' LOG_INFO
                     (emit (Request_path h)
                       (rns_log ''Could not recall an Identity for the requested address.''
                          LOG_ERROR s)))
             | Some ident \<Rightarrow>
                 let lxmf_destination = Destination ident Dir_OUT SINGLE ''lxmf'' ''delivery'';
                     lxm = \<lparr>lxm_destination = lxmf_destination, lxm_source = local_hash s,
                            lxm_content = message, lxm_title = title, desired_method = DIRECT,
                            try_propagation_on_fail = True\<rparr>;
                     s1 = emit (Queue_put lxm) s
                 in case put lxm (queue s1) of
                      None \<Rightarrow> Blocks (s1\<lparr>pending := Some lxm\<rparr>)
                    | Some q \<Rightarrow> Returns (s1\<lparr>queue := q\<rparr>)))"

text \<open>An HTTP response: the status code and the JSON object of the body.\<close>

datatype response = Response nat "(string \<times> string) list"

text \<open>
  \<^verbatim>\<open>send_message\<close>: there is no response, \<^const>\<open>None\<close>, while \<^verbatim>\<open>api.send\<close> blocks. An
  \<^verbatim>\<open>HTTPException(status_code=400, detail=str(e))\<close> is the response 400.
\<close>

definition send_message :: "message_request \<Rightarrow> 'w lxmfapi \<Rightarrow> response option \<times> 'w lxmfapi" where
  "send_message message_request s =
     (case send (req_destination message_request) (req_message message_request)
             (req_title message_request) s of
        Returns s1 \<Rightarrow> (Some (Response 200 [(''status'', ''message queued'')]), s1)
      | Raises e s1 \<Rightarrow> (Some (Response 400 [(''detail'', exn_str e)]), s1)
      | Blocks s1 \<Rightarrow> (None, s1))"

section \<open>The websocket subscriber\<close>

text \<open>
  \<^verbatim>\<open>message_callback\<close> of \<^verbatim>\<open>websocket_endpoint\<close> schedules
  \<^verbatim>\<open>message_queue.put({"sender": ..., "content": ..., "hash": ...})\<close> on the event loop.
  The world is the content of every connection's \<^verbatim>\<open>message_queue\<close>, by connection.
\<close>

type_synonym ws_world = "nat \<Rightarrow> (string \<times> string) list list"

definition message_callback :: "nat \<Rightarrow> ws_world callback" where
  "message_callback k =
     Callback k (\<lambda>msg w.
       (None, w(k := w k @ [[(''sender'', sender msg), (''content'', content msg),
                            (''hash'', hash msg)]])))"

section \<open>Runs of the program\<close>

text \<open>What the event loop does for a request, when it is free to handle it.\<close>

fun serve :: "'w request \<Rightarrow> 'w lxmfapi \<Rightarrow> 'w lxmfapi" where
  "serve (Post r) s = snd (send_message r s)"
| "serve (Register f) s = received f s"
| "serve (Unregister f) s = s\<lparr>delivery_callbacks := remove1 f (delivery_callbacks s)\<rparr>"

text \<open>
  The event loop goes through the requests that waited, in their order, until a
  \<^verbatim>\<open>put\<close> blocks it again; the requests it has not begun stay in the backlog.
\<close>

fun drain :: "'w request list \<Rightarrow> 'w lxmfapi \<Rightarrow> 'w lxmfapi" where
  "drain [] s = s"
| "drain (r # rs) s =
     (case pending s of
        None \<Rightarrow> drain rs (serve r s)
      | Some lxm \<Rightarrow> s\<lparr>backlog := r # rs\<rparr>)"

text \<open>
  The pending \<^verbatim>\<open>put\<close> waits on \<^verbatim>\<open>not_full\<close> until the queue holds fewer than \<^verbatim>\<open>maxsize\<close>
  items. Then it appends its message and returns, \<^verbatim>\<open>send_message\<close> returns, and the
  event loop goes on with the requests that waited.
\<close>

definition resume :: "'w lxmfapi \<Rightarrow> 'w lxmfapi" where
  "resume s =
     (case pending s of
        None \<Rightarrow> s
      | Some lxm \<Rightarrow>
          (case put lxm (queue s) of
             None \<Rightarrow> s
           | Some q \<Rightarrow> drain (backlog s) (s\<lparr>queue := q, pending := None, backlog := []\<rparr>)))"

text \<open>
  What happens to the program from outside: the router delivers a message (on a thread
  of its own), the processor thread runs one iteration (with the two clock readings of
  \<^verbatim>\<open>_announce\<close>), a request arrives for the event loop. An exception in the processor
  thread ends the thread. A request that arrives while the event loop waits in \<^verbatim>\<open>put\<close>
  joins the backlog. The processor sleeps 10 seconds after each iteration: a \<^verbatim>\<open>put\<close> for
  which the iteration has made room returns before the next one.
\<close>

datatype 'w action =
    Inbound inbound
  | Tick int int
  | Request "'w request"

fun step :: "'w lxmfapi \<Rightarrow> 'w action \<Rightarrow> 'w lxmfapi" where
  "step s (Inbound m) = state_of (message_received m s)"
| "step s (Tick now1 now2) =
     resume
       (if processor_alive s then
          (case process_queue now1 now2 s of
             Returns s1 \<Rightarrow> s1
           | Raises e s1 \<Rightarrow> s1\<lparr>processor_alive := False\<rparr>
           | Blocks s1 \<Rightarrow> s1)
        else s)"
| "step s (Request r) =
     (case pending s of
        None \<Rightarrow> serve r s
      | Some lxm \<Rightarrow> s\<lparr>backlog := backlog s @ [r]\<rparr>)"

definition run :: "'w action list \<Rightarrow> 'w lxmfapi \<Rightarrow> 'w lxmfapi" where
  "run acts s = foldl step s acts"

section \<open>What a trace shows\<close>

text \<open>
  The messages \<^verbatim>\<open>self.queue.put\<close> has been called with, and those handed to the router,
  in order.
\<close>

definition enqueued :: "effect list \<Rightarrow> lxmessage list" where
  "enqueued t = concat (map (\<lambda>e. case e of Queue_put x \<Rightarrow> [x] | _ \<Rightarrow> []) t)"

definition handed :: "effect list \<Rightarrow> lxmessage list" where
  "handed t = concat (map (\<lambda>e. case e of Handle_outbound x \<Rightarrow> [x] | _ \<Rightarrow> []) t)"

text \<open>The message of the \<^verbatim>\<open>put\<close> that has not returned, if there is one.\<close>

definition waiting :: "'w lxmfapi \<Rightarrow> lxmessage list" where
  "waiting s = (case pending s of None \<Rightarrow> [] | Some lxm \<Rightarrow> [lxm])"

text \<open>
  What holds of the queue between any two steps: it is within its capacity; every
  message \<^verbatim>\<open>put\<close> was called with has been handed to the router, is in the queue, or is
  that of the pending \<^verbatim>\<open>put\<close>, in this order; a \<^verbatim>\<open>put\<close> is pending on a full queue only;
  and requests wait only while a \<^verbatim>\<open>put\<close> is pending.
\<close>

definition queue_inv :: "'w lxmfapi \<Rightarrow> bool" where
  "queue_inv s \<longleftrightarrow>
     length (queue s) \<le> maxsize \<and>
     enqueued (trace s) = handed (trace s) @ queue s @ waiting s \<and>
     (pending s \<noteq> None \<longrightarrow> length (queue s) = maxsize) \<and>
     (pending s = None \<longrightarrow> backlog s = [])"

text \<open>The number of calls of \<^verbatim>\<open>self.local.announce()\<close>.\<close>

definition announces :: "effect list \<Rightarrow> nat" where
  "announces t = length (filter (\<lambda>e. e = Announce) t)"

text \<open>The callbacks called, each with the event it was given, in order.\<close>

definition calls :: "effect list \<Rightarrow> (nat \<times> event) list" where
  "calls t = concat (map (\<lambda>e. case e of Call k msg \<Rightarrow> [(k, msg)] | _ \<Rightarrow> []) t)"

text \<open>
  The event \<^verbatim>\<open>_message_received\<close> builds for a message, lines 89 to 96, when the
  content decodes to \<open>txt\<close>.
\<close>

definition event_of :: "inbound \<Rightarrow> string \<Rightarrow> event" where
  "event_of m txt =
     \<lparr>lxmf = m, reply = Send_to (hexrep (source_hash m)), sender = hexrep (source_hash m),
      content = txt, hash = hexrep (msg_hash m)\<rparr>"

text \<open>
  The world after the callbacks \<open>cbs\<close> have been called with \<open>ev\<close>, one after the other,
  from the world \<open>w\<close>.
\<close>

definition called :: "'w callback list \<Rightarrow> event \<Rightarrow> 'w \<Rightarrow> 'w" where
  "called cbs ev w = fold (\<lambda>cb w. snd (cb_fun cb ev w)) cbs w"

text \<open>How a call ended.\<close>

fun raised :: "'s outcome \<Rightarrow> exn option" where
  "raised (Returns s) = None"
| "raised (Raises e s) = Some e"
| "raised (Blocks s) = None"


text \<open>The \<^verbatim>\<open>LXMessage\<close> that \<^verbatim>\<open>send\<close> builds for a recalled identity, lines 114 to 116.\<close>

definition lxm_for :: "identity \<Rightarrow> bytes \<Rightarrow> string \<Rightarrow> string \<Rightarrow> lxmessage" where
  "lxm_for ident src message title =
     \<lparr>lxm_destination = Destination ident Dir_OUT SINGLE ''lxmf'' ''delivery'',
      lxm_source = src, lxm_content = message, lxm_title = title, desired_method = DIRECT,
      try_propagation_on_fail = True\<rparr>"

text \<open>The receipts of the messages the router delivers in a run.\<close>

definition inbound_receipts :: "'w action list \<Rightarrow> string list" where
  "inbound_receipts acts =
     concat (map (\<lambda>a. case a of Inbound m \<Rightarrow> [hexrep (msg_hash m)] | _ \<Rightarrow> []) acts)"

text \<open>The recency list after the receipts \<open>xs\<close> have been tested and recorded, in order.\<close>

definition record_all :: "string list \<Rightarrow> string list \<Rightarrow> string list" where
  "record_all xs rs = foldl (\<lambda>rs x. snd (check_and_record x rs)) rs xs"

section \<open>Inputs for the examples\<close>

text \<open>An inbound message with the content \<^verbatim>\<open>b"hi"\<close> and the one-byte hash \<open>i\<close>.\<close>

definition msg_n :: "nat \<Rightarrow> inbound" where
  "msg_n i = \<lparr>source_hash = [0xab], msg_hash = [of_nat i], msg_content = [0x68, 0x69]\<rparr>"

text \<open>A callback that raises, as one whose connection is gone may.\<close>

definition failing_callback :: "nat \<Rightarrow> 'w callback" where
  "failing_callback k = Callback k (\<lambda>msg w. (Some (Exception ''connection closed''), w))"

text \<open>An inbound message whose content, \<^verbatim>\<open>b"\xff"\<close>, is not UTF-8.\<close>

definition bad_msg :: inbound where
  "bad_msg = \<lparr>source_hash = [0xab], msg_hash = [0x01], msg_content = [0xff]\<rparr>"

text \<open>The initial state after the callbacks \<open>cbs\<close> have been registered, in order.\<close>

definition sockets :: "ws_world callback list \<Rightarrow> ws_world lxmfapi" where
  "sockets cbs = foldl (\<lambda>s f. received f s) (initial [] None (\<lambda>h. None) (\<lambda>k. [])) cbs"

text \<open>A request body with the destination \<open>dest\<close>.\<close>

definition request :: "string \<Rightarrow> message_request" where
  "request dest = \<lparr>req_destination = dest, req_message = ''hello'', req_title = ''Reply''\<rparr>"

text \<open>A post to a destination of 16 bytes, with the number \<open>i\<close> as its message.\<close>

definition post_n :: "nat \<Rightarrow> 'w action" where
  "post_n i =
     Request (Post \<lparr>req_destination = ''00112233445566778899aabbccddeeff'',
                    req_message = str_nat i, req_title = ''Reply''\<rparr>)"

text \<open>Five posts to a destination whose identity is known: the queue is full.\<close>

definition five_posts :: "unit lxmfapi" where
  "five_posts =
     run [post_n 1, post_n 2, post_n 3, post_n 4, post_n 5]
       (initial [0x01] None (\<lambda>h. Some (Identity h)) ())"

text \<open>The sixth post, before the processor's first iteration.\<close>

definition six_posts :: "unit lxmfapi" where
  "six_posts =
     run [post_n 1, post_n 2, post_n 3, post_n 4, post_n 5, post_n 6]
       (initial [0x01] None (\<lambda>h. Some (Identity h)) ())"

text \<open>
  A seventh post, and two iterations of the processor ten seconds apart.
\<close>

definition later :: "unit lxmfapi" where
  "later = run [post_n 7, Tick 1700000000 1700000000, Tick 1700000010 1700000010] six_posts"

section \<open>Decimal text\<close>

lemma digit_char [simp]:
  "d < 10 \<Longrightarrow> is_digit (char_of (48 + d))"
  "d < 10 \<Longrightarrow> digit_val (char_of (48 + d)) = d"
  by (auto simp: is_digit_def digit_val_def)

lemma str_nat_digits: "c \<in> set (str_nat n) \<Longrightarrow> is_digit c"
proof (induction n arbitrary: c rule: str_nat.induct)
  case (1 n)
  show ?case
  proof (cases "n < 10")
    case True
    with 1(2) show ?thesis by (simp add: str_nat.simps [of n])
  next
    case False
    with 1 show ?thesis by (auto simp: str_nat.simps [of n])
  qed
qed

lemma str_nat_nonempty: "str_nat n \<noteq> []"
  by (subst str_nat.simps) simp

lemma digits_all:
  "\<forall>c \<in> set cs. is_digit c \<Longrightarrow>
   digits acc cs = Some (foldl (\<lambda>a c. 10 * a + digit_val c) acc cs)"
  by (induction cs arbitrary: acc) auto

lemma unsigned_all:
  "cs \<noteq> [] \<Longrightarrow> \<forall>c \<in> set cs. is_digit c \<Longrightarrow>
   unsigned cs = Some (foldl (\<lambda>a c. 10 * a + digit_val c) 0 cs)"
  by (cases cs) (auto simp: unsigned_def digits_all)

lemma str_nat_val: "foldl (\<lambda>a c. 10 * a + digit_val c) 0 (str_nat n) = n"
proof (induction n rule: str_nat.induct)
  case (1 n)
  show ?case
  proof (cases "n < 10")
    case True
    then show ?thesis by (simp add: str_nat.simps [of n])
  next
    case False
    with 1 show ?thesis by (simp add: str_nat.simps [of n])
  qed
qed

lemma unsigned_str_nat: "unsigned (str_nat n) = Some n"
  by (simp add: unsigned_all str_nat_nonempty str_nat_digits str_nat_val)

lemma digit_not_space:
  "is_digit c \<Longrightarrow>
   \<not> is_space c \<and> c \<noteq> CHR 0x0A \<and> c \<noteq> CHR 0x0D \<and> c \<noteq> CHR ''-'' \<and> c \<noteq> CHR ''+''"
  by (auto simp: is_digit_def is_space_def Let_def)

lemma minus_not_space: "\<not> is_space (CHR ''-'')"
  by (simp add: is_space_def)

lemma str_int_chars:
  "c \<in> set (str_int i) \<Longrightarrow> \<not> is_space c \<and> c \<noteq> CHR 0x0A \<and> c \<noteq> CHR 0x0D"
  by (auto simp: str_int_def minus_not_space dest: str_nat_digits digit_not_space
        split: if_splits)

lemma strip_id: "\<forall>c \<in> set s. \<not> is_space c \<Longrightarrow> strip s = s"
proof -
  assume a: "\<forall>c \<in> set s. \<not> is_space c"
  then have "dropWhile is_space s = s" by (cases s) auto
  moreover from a have "dropWhile is_space (rev s) = rev s" by (cases "rev s") auto
  ultimately show ?thesis by (simp add: strip_def)
qed

lemma readline_id: "\<forall>c \<in> set s. c \<noteq> CHR 0x0A \<and> c \<noteq> CHR 0x0D \<Longrightarrow> readline s = s"
proof -
  assume "\<forall>c \<in> set s. c \<noteq> CHR 0x0A \<and> c \<noteq> CHR 0x0D"
  then have "takeWhile (\<lambda>c. c \<noteq> CHR 0x0A \<and> c \<noteq> CHR 0x0D) s = s"
    by (simp add: takeWhile_eq_all_conv)
  then show ?thesis by (simp add: readline_def Let_def del: takeWhile_eq_all_conv)
qed

text \<open>What \<^verbatim>\<open>_announce\<close> writes is read back as the same integer.\<close>

lemma py_int_str_int: "py_int (readline (str_int i)) = Inr i"
proof -
  have r: "readline (str_int i) = str_int i"
    by (rule readline_id) (auto dest: str_int_chars)
  have s: "strip (str_int i) = str_int i"
    by (rule strip_id) (auto dest: str_int_chars)
  show ?thesis
  proof (cases "i < 0")
    case True
    then show ?thesis
      by (simp add: r py_int_def s) (simp add: str_int_def unsigned_str_nat)
  next
    case False
    obtain c cs where e: "str_nat (nat i) = c # cs"
      using str_nat_nonempty [of "nat i"] by (cases "str_nat (nat i)") auto
    then have "is_digit c" using str_nat_digits [of c "nat i"] by simp
    then have "c \<noteq> CHR ''-''" "c \<noteq> CHR ''+''" using digit_not_space by auto
    moreover have "unsigned (c # cs) = Some (nat i)"
      using unsigned_str_nat [of "nat i"] e by simp
    ultimately show ?thesis using False
      by (simp add: r py_int_def s) (simp add: str_int_def e)
  qed
qed

section \<open>What each operation leaves unchanged\<close>

lemma enqueued_simps [simp]:
  "enqueued [] = []"
  "enqueued (e # t) = (case e of Queue_put x \<Rightarrow> [x] | _ \<Rightarrow> []) @ enqueued t"
  "enqueued (t @ u) = enqueued t @ enqueued u"
  by (simp_all add: enqueued_def)

lemma handed_simps [simp]:
  "handed [] = []"
  "handed (e # t) = (case e of Handle_outbound x \<Rightarrow> [x] | _ \<Rightarrow> []) @ handed t"
  "handed (t @ u) = handed t @ handed u"
  by (simp_all add: handed_def)

lemma announces_simps [simp]:
  "announces [] = 0"
  "announces (e # t) = (if e = Announce then 1 else 0) + announces t"
  "announces (t @ u) = announces t + announces u"
  by (simp_all add: announces_def)

lemma calls_simps [simp]:
  "calls [] = []"
  "calls (e # t) = (case e of Call k msg \<Rightarrow> [(k, msg)] | _ \<Rightarrow> []) @ calls t"
  "calls (t @ u) = calls t @ calls u"
  by (simp_all add: calls_def)

lemma call_all_frame:
  "receipts (state_of (call_all cbs m sn r s)) = receipts s \<and>
   queue (state_of (call_all cbs m sn r s)) = queue s \<and>
   delivery_callbacks (state_of (call_all cbs m sn r s)) = delivery_callbacks s \<and>
   announce_file (state_of (call_all cbs m sn r s)) = announce_file s \<and>
   announce_time (state_of (call_all cbs m sn r s)) = announce_time s \<and>
   processor_alive (state_of (call_all cbs m sn r s)) = processor_alive s"
  by (induction cbs arbitrary: s)
     (auto simp: emit_def Let_def split: sum.splits prod.splits option.splits)

lemma call_all_trace:
  "enqueued (trace (state_of (call_all cbs m sn r s))) = enqueued (trace s) \<and>
   handed (trace (state_of (call_all cbs m sn r s))) = handed (trace s) \<and>
   announces (trace (state_of (call_all cbs m sn r s))) = announces (trace s)"
  by (induction cbs arbitrary: s)
     (auto simp: emit_def Let_def split: sum.splits prod.splits option.splits)

lemma check_and_record_length:
  "length rs \<le> 100 \<Longrightarrow> length (snd (check_and_record r rs)) \<le> 100"
  by (auto simp: check_and_record_def Let_def)

lemma message_received_receipts:
  "receipts (state_of (message_received m s)) = snd (check_and_record (hexrep (msg_hash m)) (receipts s))"
  by (auto simp: message_received_def Let_def rns_log_def emit_def call_all_frame split: prod.splits bool.splits)
     (auto simp: check_and_record_def Let_def split: if_splits)

lemma message_received_frame:
  "queue (state_of (message_received m s)) = queue s \<and>
   delivery_callbacks (state_of (message_received m s)) = delivery_callbacks s \<and>
   announce_file (state_of (message_received m s)) = announce_file s \<and>
   announce_time (state_of (message_received m s)) = announce_time s \<and>
   processor_alive (state_of (message_received m s)) = processor_alive s \<and>
   enqueued (trace (state_of (message_received m s))) = enqueued (trace s) \<and>
   handed (trace (state_of (message_received m s))) = handed (trace s) \<and>
   announces (trace (state_of (message_received m s))) = announces (trace s)"
  by (auto simp: message_received_def Let_def rns_log_def emit_def call_all_frame call_all_trace
        split: prod.splits bool.splits)

lemma send_frame:
  "receipts (state_of (send d m t s)) = receipts s \<and>
   delivery_callbacks (state_of (send d m t s)) = delivery_callbacks s \<and>
   announce_file (state_of (send d m t s)) = announce_file s \<and>
   announce_time (state_of (send d m t s)) = announce_time s \<and>
   processor_alive (state_of (send d m t s)) = processor_alive s \<and>
   handed (trace (state_of (send d m t s))) = handed (trace s) \<and>
   announces (trace (state_of (send d m t s))) = announces (trace s)"
  by (auto simp: send_def Let_def rns_log_def emit_def put_def split: option.splits)

lemma send_queue:
  "length (queue s) \<le> maxsize \<Longrightarrow> length (queue (state_of (send d m t s))) \<le> maxsize"
  by (auto simp: send_def Let_def rns_log_def emit_def put_def split: option.splits)

lemma send_message_state: "snd (send_message r s) = state_of (send (req_destination r) (req_message r) (req_title r) s)"
  by (simp add: send_message_def split: outcome.splits)

lemma announce_frame:
  "receipts (state_of (announce a b s)) = receipts s \<and>
   delivery_callbacks (state_of (announce a b s)) = delivery_callbacks s \<and>
   queue (state_of (announce a b s)) = queue s \<and>
   announce_time (state_of (announce a b s)) = announce_time s \<and>
   processor_alive (state_of (announce a b s)) = processor_alive s \<and>
   handed (trace (state_of (announce a b s))) = handed (trace s) \<and>
   enqueued (trace (state_of (announce a b s))) = enqueued (trace s)"
  by (auto simp: announce_def Let_def rns_log_def emit_def split: option.splits sum.splits)

lemma call_all_waiting:
  "pending (state_of (call_all cbs m sn r s)) = pending s \<and>
   backlog (state_of (call_all cbs m sn r s)) = backlog s"
  by (induction cbs arbitrary: s)
     (auto simp: emit_def Let_def split: sum.splits prod.splits option.splits)

lemma message_received_waiting:
  "pending (state_of (message_received m s)) = pending s \<and>
   backlog (state_of (message_received m s)) = backlog s"
  by (auto simp: message_received_def Let_def rns_log_def emit_def call_all_waiting
        split: prod.splits bool.splits)

lemma announce_waiting:
  "pending (state_of (announce a b s)) = pending s \<and>
   backlog (state_of (announce a b s)) = backlog s"
  by (auto simp: announce_def Let_def rns_log_def emit_def split: option.splits sum.splits)

lemma serve_frame:
  "receipts (serve r s) = receipts s \<and>
   announce_file (serve r s) = announce_file s \<and>
   announce_time (serve r s) = announce_time s \<and>
   processor_alive (serve r s) = processor_alive s \<and>
   backlog (serve r s) = backlog s \<and>
   handed (trace (serve r s)) = handed (trace s) \<and>
   announces (trace (serve r s)) = announces (trace s)"
proof (cases r)
  case (Post x)
  have "backlog (state_of (send d m t s)) = backlog s" for d m t
    by (auto simp: send_def Let_def rns_log_def emit_def put_def split: option.splits)
  with Post show ?thesis by (simp add: send_message_state send_frame)
next
  case (Register f)
  then show ?thesis by (simp add: received_def)
next
  case (Unregister f)
  then show ?thesis by simp
qed

lemma drain_frame:
  "receipts (drain rs s) = receipts s \<and>
   announce_file (drain rs s) = announce_file s \<and>
   announce_time (drain rs s) = announce_time s \<and>
   processor_alive (drain rs s) = processor_alive s \<and>
   handed (trace (drain rs s)) = handed (trace s) \<and>
   announces (trace (drain rs s)) = announces (trace s)"
  by (induction rs arbitrary: s) (simp_all add: serve_frame split: option.splits)

lemma resume_frame:
  "receipts (resume s) = receipts s \<and>
   announce_file (resume s) = announce_file s \<and>
   announce_time (resume s) = announce_time s \<and>
   processor_alive (resume s) = processor_alive s \<and>
   handed (trace (resume s)) = handed (trace s) \<and>
   announces (trace (resume s)) = announces (trace s)"
  by (simp add: resume_def drain_frame split: option.splits)

section \<open>The announce throttle\<close>

lemma read_deadline_written:
  "read_deadline (s\<lparr>announce_file := Some (str_int i)\<rparr>) = Inr i"
  by (simp add: read_deadline_def py_int_str_int)

lemma read_deadline_emit [simp]: "read_deadline (emit e s) = read_deadline s"
  by (simp add: read_deadline_def emit_def)

lemma read_deadline_log [simp]: "read_deadline (rns_log t l s) = read_deadline s"
  by (simp add: rns_log_def)

lemma announce_due:
  assumes "read_deadline s = Inr d" and "d \<le> now1"
  shows "(announce_file s = None \<longrightarrow> d = 1) \<and>
    (\<exists>s'. announce now1 now2 s = Returns s' \<and>
       trace s' = trace s @
         [Write_file (str_int (now2 + announce_time s)), Announce,
          Log ''Announcement sent, expr set 1800 seconds'' LOG_INFO] \<and>
       announce_file s' = Some (str_int (now2 + announce_time s)) \<and>
       read_deadline s' = Inr (now2 + announce_time s))"
proof -
  from assms(1) have "announce_file s = None \<longrightarrow> d = 1"
    by (auto simp: read_deadline_def)
  moreover from assms have "\<not> d > now1" by simp
  then have "\<exists>s'. announce now1 now2 s = Returns s' \<and>
       trace s' = trace s @
         [Write_file (str_int (now2 + announce_time s)), Announce,
          Log ''Announcement sent, expr set 1800 seconds'' LOG_INFO] \<and>
       announce_file s' = Some (str_int (now2 + announce_time s)) \<and>
       read_deadline s' = Inr (now2 + announce_time s)"
    using assms(1)
    by (simp add: announce_def Let_def read_deadline_written)
       (simp add: rns_log_def emit_def)
  ultimately show ?thesis by blast
qed

text \<open>
  Claim C7. When the deadline that \<^verbatim>\<open>_announce\<close> reads has passed (the deadline is 1
  when there is no announce file), the call returns, and what it does is, in this
  order: write the new deadline, the second clock reading plus \<^verbatim>\<open>announce_time\<close>, to
  the announce file, call \<^verbatim>\<open>self.local.announce()\<close>, log. The file then reads back as
  the new deadline. \<^verbatim>\<open>announce_time\<close> is 600 in the class body.
\<close>

theorem announce_persists_then_announces:
  assumes "read_deadline s = Inr d" and "d \<le> now1"
  shows "(announce_file s = None \<longrightarrow> d = 1) \<and>
    (\<exists>s'. announce now1 now2 s = Returns s' \<and>
       trace s' = trace s @
         [Write_file (str_int (now2 + announce_time s)), Announce,
          Log ''Announcement sent, expr set 1800 seconds'' LOG_INFO] \<and>
       announce_file s' = Some (str_int (now2 + announce_time s)) \<and>
       read_deadline s' = Inr (now2 + announce_time s))"
  using assms by (rule announce_due)

theorem announce_persists_then_announces_witness:
  "read_deadline (initial [] None (\<lambda>h. None) ()) = Inr 1 \<and> (1::int) \<le> 1700000000 \<and>
   announce_time (initial [] None (\<lambda>h. None) ()) = 600 \<and>
   trace (state_of (announce 1700000000 1700000001 (initial [] None (\<lambda>h. None) ()))) =
     [Write_file ''1700000601'', Announce,
      Log ''Announcement sent, expr set 1800 seconds'' LOG_INFO]"
proof -
  have h: "read_deadline (initial [] None (\<lambda>h. None) ()) = Inr 1"
    by (simp add: read_deadline_def initial_def)
  have t: "str_int 1700000601 = ''1700000601''"
    by (simp add: str_int_def str_nat.simps char_of_def bit_Suc_0_iff)
  show ?thesis
    using h announce_persists_then_announces [OF h, of 1700000000 1700000001] t
    by (auto simp: initial_def)
qed




section \<open>The recency list of receipts\<close>

lemma record_all_simps [simp]:
  "record_all [] rs = rs"
  "record_all (x # xs) rs = record_all xs (snd (check_and_record x rs))"
  "record_all (xs @ ys) rs = record_all ys (record_all xs rs)"
  by (simp_all add: record_all_def)

lemma inbound_receipts_simps [simp]:
  "inbound_receipts [] = []"
  "inbound_receipts (a # acts) = (case a of Inbound m \<Rightarrow> [hexrep (msg_hash m)] | _ \<Rightarrow> []) @ inbound_receipts acts"
  "inbound_receipts (acts @ bcts) = inbound_receipts acts @ inbound_receipts bcts"
  by (simp_all add: inbound_receipts_def)

lemma process_queue_frame:
  "receipts (state_of (process_queue a b s)) = receipts s \<and>
   delivery_callbacks (state_of (process_queue a b s)) = delivery_callbacks s \<and>
   announce_time (state_of (process_queue a b s)) = announce_time s \<and>
   processor_alive (state_of (process_queue a b s)) = processor_alive s"
  by (auto simp: process_queue_def announce_frame emit_def split: list.splits)

lemma step_receipts:
  "receipts (step s a) =
     (case a of Inbound m \<Rightarrow> snd (check_and_record (hexrep (msg_hash m)) (receipts s))
      | _ \<Rightarrow> receipts s)"
proof (cases a)
  case (Inbound m)
  then show ?thesis by (simp add: message_received_receipts)
next
  case (Tick a b)
  then show ?thesis
    using process_queue_frame [of a b s]
    by (auto simp: resume_frame split: outcome.splits)
next
  case (Request r)
  then show ?thesis by (simp add: serve_frame split: option.splits)
qed

lemma run_simps [simp]:
  "run [] s = s"
  "run (a # acts) s = run acts (step s a)"
  "run (acts @ bcts) s = run bcts (run acts s)"
  by (simp_all add: run_def)

lemma run_receipts:
  "receipts (run acts s) = record_all (inbound_receipts acts) (receipts s)"
  by (induction acts arbitrary: s) (auto simp: step_receipts split: action.splits)

lemma check_and_record_cases:
  "check_and_record r rs =
     (if r \<in> set rs then (False, rs)
      else if length rs < 100 then (True, rs @ [r])
      else (True, tl rs @ [r]))"
  by (cases rs) (auto simp: check_and_record_def Let_def)

lemma record_all_length:
  "length rs \<le> 100 \<Longrightarrow> length (record_all xs rs) \<le> 100"
  by (induction xs arbitrary: rs) (auto simp: check_and_record_length)

lemma record_all_keeps:
  assumes "finite A" and "card A < 100" and "r \<notin> A"
  shows "set xs \<subseteq> insert r A \<Longrightarrow> distinct post \<Longrightarrow> set post \<subseteq> A \<Longrightarrow>
         \<exists>pre' post'. record_all xs (pre @ r # post) = pre' @ r # post'"
proof (induction xs arbitrary: pre post)
  case Nil
  then show ?case by auto
next
  case (Cons x xs)
  show ?case
  proof (cases "x \<in> set (pre @ r # post)")
    case True
    then have "snd (check_and_record x (pre @ r # post)) = pre @ r # post"
      by (simp add: check_and_record_cases)
    with Cons show ?thesis by simp
  next
    case False
    then have xA: "x \<in> A" and xp: "x \<notin> set post" using Cons.prems by auto
    have dp: "distinct (post @ [x])" and sp: "set (post @ [x]) \<subseteq> A"
      using Cons.prems xA xp by auto
    show ?thesis
    proof (cases "length (pre @ r # post) < 100")
      case True
      with False have "snd (check_and_record x (pre @ r # post)) = pre @ r # (post @ [x])"
        by (simp add: check_and_record_cases)
      moreover have "set xs \<subseteq> insert r A" using Cons.prems by auto
      ultimately show ?thesis using Cons.IH [of "post @ [x]" pre] dp sp by simp
    next
      case long: False
      have "length (post @ [x]) = card (set (post @ [x]))"
        using dp by (simp only: distinct_card)
      also have "\<dots> \<le> card A" using sp assms(1) by (rule card_mono [rotated])
      finally have "length post < 99" using assms(2) by simp
      with long obtain p pre2 where pre: "pre = p # pre2" by (cases pre) auto
      with False long have "snd (check_and_record x (pre @ r # post)) = pre2 @ r # (post @ [x])"
        by (simp add: check_and_record_cases)
      moreover have "set xs \<subseteq> insert r A" using Cons.prems by auto
      ultimately show ?thesis using Cons.IH [of "post @ [x]" pre2] dp sp by simp
    qed
  qed
qed

lemma record_all_new:
  "length rs \<le> 100 \<Longrightarrow> distinct xs \<Longrightarrow> set xs \<inter> set rs = {} \<Longrightarrow>
   record_all xs rs = drop (length rs + length xs - 100) (rs @ xs)"
proof (induction xs rule: rev_induct)
  case Nil
  then show ?case by simp
next
  case (snoc x xs)
  let ?k = "length rs + length xs - 100"
  from snoc have ih: "record_all xs rs = drop ?k (rs @ xs)" by simp
  have "set (drop ?k (rs @ xs)) \<subseteq> set (rs @ xs)" by (rule set_drop_subset)
  with snoc.prems have new: "x \<notin> set (drop ?k (rs @ xs))" by auto
  have len: "length (drop ?k (rs @ xs)) = (if length rs + length xs \<le> 100 then length rs + length xs else 100)"
    by auto
  show ?case
  proof (cases "length rs + length xs < 100")
    case True
    then show ?thesis using new ih by (simp add: check_and_record_cases)
  next
    case False
    then have "record_all (xs @ [x]) rs = tl (drop ?k (rs @ xs)) @ [x]"
      using new ih len by (simp add: check_and_record_cases)
    also have "\<dots> = drop (Suc ?k) (rs @ xs) @ [x]" by (simp only: drop_Suc tl_drop)
    also have "\<dots> = drop (length rs + length (xs @ [x]) - 100) (rs @ xs @ [x])"
    proof -
      have e: "Suc ?k = length rs + length (xs @ [x]) - 100" using False by simp
      have "Suc ?k \<le> length (rs @ xs)" using False by simp
      then have "drop (Suc ?k) (rs @ xs) @ [x] = drop (Suc ?k) ((rs @ xs) @ [x])" by simp
      with e show ?thesis by simp
    qed
    finally show ?thesis by simp
  qed
qed

lemma record_all_evicts:
  assumes "length rs \<le> 100" and "distinct xs" and "set xs \<inter> set rs = {}"
    and "100 \<le> length xs" and "r \<in> set rs"
  shows "r \<notin> set (record_all xs rs)"
proof -
  have "record_all xs rs = drop (length rs + length xs - 100) (rs @ xs)"
    using assms by (simp add: record_all_new)
  also have "\<dots> = drop (length xs - 100) xs" using assms(4) by simp
  finally have "set (record_all xs rs) \<subseteq> set xs" by (simp add: set_drop_subset)
  with assms show ?thesis by auto
qed

lemma initial_simps [simp]:
  "receipts (initial loc af ids w) = []"
  "queue (initial loc af ids w) = []"
  "trace (initial loc af ids w) = []"
  "delivery_callbacks (initial loc af ids w) = []"
  "announce_time (initial loc af ids w) = 600"
  by (simp_all add: initial_def)

lemma reachable_receipts: "length (receipts (run acts (initial loc af ids w))) \<le> 100"
  by (simp add: run_receipts record_all_length)

lemma message_received_duplicate:
  "hexrep (msg_hash m) \<in> set (receipts s) \<Longrightarrow>
   message_received m s =
     Returns (rns_log (''Message receipt <'' @ hexrep (msg_hash m) @ ''>'') LOG_INFO s)"
  by (simp add: message_received_def Let_def check_and_record_cases rns_log_def emit_def)

lemma message_received_new:
  "hexrep (msg_hash m) \<notin> set (receipts s) \<Longrightarrow>
   message_received m s =
     call_all (delivery_callbacks s) m (hexrep (source_hash m)) (hexrep (msg_hash m))
       ((rns_log (''Message receipt <'' @ hexrep (msg_hash m) @ ''>'') LOG_INFO s)
          \<lparr>receipts := snd (check_and_record (hexrep (msg_hash m)) (receipts s))\<rparr>)"
  by (simp add: message_received_def Let_def check_and_record_cases rns_log_def emit_def)

lemma recorded_last:
  "r \<notin> set rs \<Longrightarrow> \<exists>pre. snd (check_and_record r rs) = pre @ [r]"
  by (simp add: check_and_record_cases)

lemma hex_digit_inj: "a < 16 \<Longrightarrow> b < 16 \<Longrightarrow> hex_digit a = hex_digit b \<Longrightarrow> a = b"
  by (auto simp: hex_digit_def char_of_eq_iff take_bit_nat_eq_self split: if_splits)

lemma byte_div_mod:
  fixes x y :: "8 word"
  assumes "unat x div 16 = unat y div 16" and "unat x mod 16 = unat y mod 16"
  shows "x = y"
proof -
  have "unat x = 16 * (unat x div 16) + unat x mod 16" by simp
  also have "\<dots> = 16 * (unat y div 16) + unat y mod 16" using assms by simp
  also have "\<dots> = unat y" by simp
  finally show ?thesis by (simp add: word_unat_eq_iff)
qed

lemma byte_div_16: "unat (x :: 8 word) div 16 < 16"
proof -
  have "unat x < 2 ^ 8" using unsigned_less [of x] by simp
  then show ?thesis by simp
qed

lemma hexrep_inj: "hexrep a = hexrep b \<Longrightarrow> a = b"
proof (induction a arbitrary: b)
  case Nil
  then show ?case by (cases b) (simp_all add: hexrep_def)
next
  case (Cons x xs)
  then obtain y ys where b: "b = y # ys" by (cases b) (auto simp: hexrep_def)
  from Cons.prems b have d: "hex_digit (unat x div 16) = hex_digit (unat y div 16)"
    and m: "hex_digit (unat x mod 16) = hex_digit (unat y mod 16)"
    and r: "hexrep xs = hexrep ys"
    by (simp_all add: hexrep_def)
  from d have "unat x div 16 = unat y div 16"
    by (rule hex_digit_inj [rotated 2]) (rule byte_div_16)+
  moreover from m have "unat x mod 16 = unat y mod 16"
    by (rule hex_digit_inj [rotated 2]) simp_all
  ultimately have "x = y" by (rule byte_div_mod)
  with Cons.IH [OF r] b show ?case by simp
qed

lemma msg_n_receipts_distinct:
  "n \<le> 256 \<Longrightarrow> distinct (map (\<lambda>i. hexrep (msg_hash (msg_n i))) [k..<n])"
proof -
  assume n: "n \<le> 256"
  have "inj_on (\<lambda>i. hexrep (msg_hash (msg_n i))) (set [k..<n])"
  proof (rule inj_onI)
    fix i j assume i: "i \<in> set [k..<n]" and j: "j \<in> set [k..<n]"
      and e: "hexrep (msg_hash (msg_n i)) = hexrep (msg_hash (msg_n j))"
    from e have "(of_nat i :: 8 word) = of_nat j"
      using hexrep_inj [of "[of_nat i]" "[of_nat j]"] by (simp add: msg_n_def)
    then have "unat (of_nat i :: 8 word) = unat (of_nat j :: 8 word)" by simp
    with i j n show "i = j" by (simp add: unat_of_nat)
  qed
  then show ?thesis by (simp add: distinct_map)
qed

lemma inbound_receipts_map:
  "inbound_receipts (map (\<lambda>i. Inbound (f i)) xs) = map (\<lambda>i. hexrep (msg_hash (f i))) xs"
  by (induction xs) auto

lemma msg_n_receipt_neq:
  "i < 256 \<Longrightarrow> j < 256 \<Longrightarrow> i \<noteq> j \<Longrightarrow> hexrep (msg_hash (msg_n i)) \<noteq> hexrep (msg_hash (msg_n j))"
proof
  assume i: "i < 256" and j: "j < 256" and n: "i \<noteq> j"
    and e: "hexrep (msg_hash (msg_n i)) = hexrep (msg_hash (msg_n j))"
  from e have "(of_nat i :: 8 word) = of_nat j"
    using hexrep_inj [of "[of_nat i]" "[of_nat j]"] by (simp add: msg_n_def)
  then have "unat (of_nat i :: 8 word) = unat (of_nat j :: 8 word)" by simp
  with i j n show False by (simp add: unat_of_nat)
qed

lemma hundred_receipts:
  "receipts (run (map (\<lambda>i. Inbound (msg_n i)) [1..<101]) (initial loc af ids w)) =
     map (\<lambda>i. hexrep (msg_hash (msg_n i))) [1..<101]"
proof -
  have "record_all (map (\<lambda>i. hexrep (msg_hash (msg_n i))) [1..<101]) [] =
        drop (length ([] :: string list) + length (map (\<lambda>i. hexrep (msg_hash (msg_n i))) [1..<101]) - 100)
          ([] @ map (\<lambda>i. hexrep (msg_hash (msg_n i))) [1..<101])"
    by (rule record_all_new) (simp_all add: msg_n_receipts_distinct)
  then show ?thesis
    by (simp add: run_receipts inbound_receipts_map)
qed

text \<open>
  Claim C9. In every state the program reaches from its initial state, the recency
  list holds at most 100 receipts, and so it does after \<^verbatim>\<open>_message_received\<close>. A
  receipt that is in the list leaves the list as it is; a new receipt is appended, and
  when the list held 100 receipts its first, oldest, entry is dropped.
\<close>

theorem receipts_bounded_fifo:
  "let s = run acts (initial loc af ids w);
       r = hexrep (msg_hash m);
       s' = state_of (message_received m s)
   in length (receipts s) \<le> 100 \<and> length (receipts s') \<le> 100 \<and>
      (r \<in> set (receipts s) \<longrightarrow> receipts s' = receipts s) \<and>
      (r \<notin> set (receipts s) \<and> length (receipts s) < 100 \<longrightarrow>
         receipts s' = receipts s @ [r]) \<and>
      (r \<notin> set (receipts s) \<and> length (receipts s) = 100 \<longrightarrow>
         receipts s' = tl (receipts s) @ [r])"
  using reachable_receipts [of acts loc af ids w]
  by (simp add: Let_def message_received_receipts check_and_record_cases)

theorem receipts_bounded_fifo_witness:
  "receipts (state_of (message_received (msg_n 0) (run [] (initial [] None (\<lambda>h. None) ())))) =
     [hexrep (msg_hash (msg_n 0))] \<and>
   receipts (state_of (message_received (msg_n 0)
       (run [Inbound (msg_n 0)] (initial [] None (\<lambda>h. None) ())))) =
     receipts (run [Inbound (msg_n 0)] (initial [] None (\<lambda>h. None) ())) \<and>
   length (receipts (run (map (\<lambda>i. Inbound (msg_n i)) [1..<101])
       (initial [] None (\<lambda>h. None) ()))) = 100 \<and>
   receipts (state_of (message_received (msg_n 0)
       (run (map (\<lambda>i. Inbound (msg_n i)) [1..<101]) (initial [] None (\<lambda>h. None) ())))) =
     tl (receipts (run (map (\<lambda>i. Inbound (msg_n i)) [1..<101])
       (initial [] None (\<lambda>h. None) ()))) @ [hexrep (msg_hash (msg_n 0))]"
proof -
  let ?i = "initial [] None (\<lambda>h. None) () :: unit lxmfapi"
  let ?r = "hexrep (msg_hash (msg_n 0))"
  have a: "?r \<notin> set (receipts (run [] ?i))" by simp
  have b: "?r \<in> set (receipts (run [Inbound (msg_n 0)] ?i))"
    by (simp add: message_received_receipts check_and_record_cases)
  have c: "?r \<notin> set (receipts (run (map (\<lambda>i. Inbound (msg_n i)) [1..<101]) ?i))"
  proof
    assume "?r \<in> set (receipts (run (map (\<lambda>i. Inbound (msg_n i)) [1..<101]) ?i))"
    then have "?r \<in> (\<lambda>i. hexrep (msg_hash (msg_n i))) ` {1..<101}"
      by (simp only: hundred_receipts set_map set_upt)
    then obtain j where "j \<in> {1..<101}" and "?r = hexrep (msg_hash (msg_n j))"
      by blast
    then show False using msg_n_receipt_neq [of 0 j] by simp
  qed
  have d: "length (receipts (run (map (\<lambda>i. Inbound (msg_n i)) [1..<101]) ?i)) = 100"
    unfolding hundred_receipts by simp
  show ?thesis
    using a b c d
      receipts_bounded_fifo [of "[]" "[]" None "\<lambda>h. None" "()" "msg_n 0"]
      receipts_bounded_fifo [of "[Inbound (msg_n 0)]" "[]" None "\<lambda>h. None" "()" "msg_n 0"]
      receipts_bounded_fifo [of "map (\<lambda>i. Inbound (msg_n i)) [1..<101]" "[]" None "\<lambda>h. None" "()"
        "msg_n 0"]
    by (simp only: Let_def) simp
qed


text \<open>
  Claim C3. A message whose receipt is not in the list of a reachable state is new:
  the callbacks are called for it. From then on, whatever happens to the program, as
  long as fewer than 100 distinct other receipts have been delivered, the same message
  is a duplicate: \<^verbatim>\<open>_message_received\<close> logs and returns, calling no callback. Once
  100 new, distinct receipts have been delivered after it, it is new again.
\<close>

theorem receipt_new_once:
  assumes "s = run before (initial loc af ids w)"
    and "r = hexrep (msg_hash m)" and "r \<notin> set (receipts s)"
    and "s1 = state_of (message_received m s)"
  shows "fst (check_and_record r (receipts s)) \<and>
     message_received m s =
       call_all (delivery_callbacks s) m (hexrep (source_hash m)) r
         ((rns_log (''Message receipt <'' @ r @ ''>'') LOG_INFO s)
            \<lparr>receipts := snd (check_and_record r (receipts s))\<rparr>) \<and>
     (\<forall>acts. card (set (inbound_receipts acts) - {r}) < 100 \<longrightarrow>
        \<not> fst (check_and_record r (receipts (run acts s1))) \<and>
        message_received m (run acts s1) =
          Returns (rns_log (''Message receipt <'' @ r @ ''>'') LOG_INFO (run acts s1))) \<and>
     (\<forall>acts. distinct (inbound_receipts acts) \<and>
        set (inbound_receipts acts) \<inter> set (receipts s1) = {} \<and>
        100 \<le> length (inbound_receipts acts) \<longrightarrow>
        fst (check_and_record r (receipts (run acts s1))))"
proof -
  have new: "fst (check_and_record r (receipts s))"
    using assms(3) by (simp add: check_and_record_cases)
  have first: "message_received m s =
       call_all (delivery_callbacks s) m (hexrep (source_hash m)) r
         ((rns_log (''Message receipt <'' @ r @ ''>'') LOG_INFO s)
            \<lparr>receipts := snd (check_and_record r (receipts s))\<rparr>)"
    using assms(2,3) by (simp add: message_received_new)
  have r1: "receipts s1 = snd (check_and_record r (receipts s))"
    using assms(2,4) by (simp add: message_received_receipts)
  then obtain pre where pre: "receipts s1 = pre @ [r]"
    using recorded_last [OF assms(3)] by auto
  have len1: "length (receipts s1) \<le> 100"
    using assms(1) r1 reachable_receipts [of before loc af ids w]
    by (simp add: check_and_record_length)
  have dup: "\<not> fst (check_and_record r (receipts (run acts s1))) \<and>
        message_received m (run acts s1) =
          Returns (rns_log (''Message receipt <'' @ r @ ''>'') LOG_INFO (run acts s1))"
    if c: "card (set (inbound_receipts acts) - {r}) < 100" for acts
  proof -
    have "\<exists>pre' post'. record_all (inbound_receipts acts) (pre @ r # []) = pre' @ r # post'"
      by (rule record_all_keeps [where A = "set (inbound_receipts acts) - {r}"])
         (use c in auto)
    then have "r \<in> set (receipts (run acts s1))"
      by (auto simp: run_receipts pre)
    then show ?thesis
      using assms(2) by (simp add: message_received_duplicate check_and_record_cases)
  qed
  have evict: "fst (check_and_record r (receipts (run acts s1)))"
    if "distinct (inbound_receipts acts) \<and>
        set (inbound_receipts acts) \<inter> set (receipts s1) = {} \<and>
        100 \<le> length (inbound_receipts acts)" for acts
  proof -
    have "r \<notin> set (record_all (inbound_receipts acts) (receipts s1))"
      by (rule record_all_evicts) (use that len1 pre in auto)
    then show ?thesis by (simp add: run_receipts check_and_record_cases)
  qed
  from new first dup evict show ?thesis by blast
qed

theorem receipt_new_once_witness:
  "hexrep (msg_hash (msg_n 0)) \<notin> set (receipts (run [] (initial [] None (\<lambda>h. None) ()))) \<and>
   fst (check_and_record (hexrep (msg_hash (msg_n 0)))
     (receipts (run [] (initial [] None (\<lambda>h. None) ())))) \<and>
   message_received (msg_n 0)
       (state_of (message_received (msg_n 0) (run [] (initial [] None (\<lambda>h. None) ())))) =
     Returns (rns_log (''Message receipt <'' @ hexrep (msg_hash (msg_n 0)) @ ''>'') LOG_INFO
       (state_of (message_received (msg_n 0) (run [] (initial [] None (\<lambda>h. None) ()))))) \<and>
   card (set (inbound_receipts (map (\<lambda>i. Inbound (msg_n i)) [1..<100])) -
     {hexrep (msg_hash (msg_n 0))}) < 100 \<and>
   \<not> fst (check_and_record (hexrep (msg_hash (msg_n 0)))
     (receipts (run (map (\<lambda>i. Inbound (msg_n i)) [1..<100])
       (state_of (message_received (msg_n 0) (run [] (initial [] None (\<lambda>h. None) ()))))))) \<and>
   fst (check_and_record (hexrep (msg_hash (msg_n 0)))
     (receipts (run (map (\<lambda>i. Inbound (msg_n i)) [1..<101])
       (state_of (message_received (msg_n 0) (run [] (initial [] None (\<lambda>h. None) ())))))))"
proof -
  let ?i = "initial [] None (\<lambda>h. None) () :: unit lxmfapi"
  let ?r = "hexrep (msg_hash (msg_n 0))"
  let ?s1 = "state_of (message_received (msg_n 0) (run [] ?i))"
  let ?f = "\<lambda>i. hexrep (msg_hash (msg_n i))"
  have a: "?r \<notin> set (receipts (run [] ?i))" by simp
  have s1: "receipts ?s1 = [?r]"
    by (simp add: message_received_receipts check_and_record_cases)
  have fresh: "?r \<notin> ?f ` {1..<n}" if "n \<le> 256" for n
  proof
    assume "?r \<in> ?f ` {1..<n}"
    then obtain j where "j \<in> {1..<n}" and "?r = ?f j" by blast
    then show False using msg_n_receipt_neq [of 0 j] that by simp
  qed
  have "card (set (map ?f [1..<100])) \<le> length (map ?f [1..<100])"
    by (rule card_length)
  then have c99: "card (set (inbound_receipts (map (\<lambda>i. Inbound (msg_n i)) [1..<100])) - {?r}) < 100"
    using fresh [of 100] by (simp add: inbound_receipts_map)
  have d: "distinct (inbound_receipts (map (\<lambda>i. Inbound (msg_n i)) [1..<101]))"
    by (simp add: inbound_receipts_map msg_n_receipts_distinct)
  have e: "set (inbound_receipts (map (\<lambda>i. Inbound (msg_n i)) [1..<101])) \<inter> set (receipts ?s1) = {}"
    using fresh [of 101] s1 by (simp add: inbound_receipts_map)
  have l: "100 \<le> length (inbound_receipts (map (\<lambda>i. Inbound (msg_n i)) [1..<101]))"
    by (simp add: inbound_receipts_map)
  have c0: "card (set (inbound_receipts ([] :: unit action list)) - {?r}) < 100" by simp
  note t = receipt_new_once [OF refl refl a refl]
  from t have 1: "fst (check_and_record ?r (receipts (run [] ?i)))" by blast
  from t c0 have 2: "message_received (msg_n 0) (run [] ?s1) =
      Returns (rns_log (''Message receipt <'' @ ?r @ ''>'') LOG_INFO (run [] ?s1))"
    by blast
  from t c99 have 3: "\<not> fst (check_and_record ?r
      (receipts (run (map (\<lambda>i. Inbound (msg_n i)) [1..<100]) ?s1)))"
    by blast
  from t d e l have 4: "fst (check_and_record ?r
      (receipts (run (map (\<lambda>i. Inbound (msg_n i)) [1..<101]) ?s1)))"
    by blast
  from a 1 2 c99 3 4 show ?thesis by simp
qed

text \<open>
  Claim C10. For a new receipt, the state in which the callbacks are called already
  holds the receipt, and so does the state \<^verbatim>\<open>_message_received\<close> leaves, however it
  ends. When it raises, a second delivery of the same message logs and returns, and
  calls no callback.
\<close>

theorem receipt_recorded_before_callbacks:
  assumes "r = hexrep (msg_hash m)" and "r \<notin> set (receipts s)"
  shows "(\<exists>s0. message_received m s =
            call_all (delivery_callbacks s) m (hexrep (source_hash m)) r s0 \<and>
          r \<in> set (receipts s0)) \<and>
     r \<in> set (receipts (state_of (message_received m s))) \<and>
     (\<forall>e s'. message_received m s = Raises e s' \<longrightarrow>
        message_received m s' =
          Returns (rns_log (''Message receipt <'' @ r @ ''>'') LOG_INFO s') \<and>
        calls (trace (state_of (message_received m s'))) = calls (trace s'))"
proof -
  obtain pre where pre: "snd (check_and_record r (receipts s)) = pre @ [r]"
    using recorded_last [OF assms(2)] by auto
  have 1: "\<exists>s0. message_received m s =
            call_all (delivery_callbacks s) m (hexrep (source_hash m)) r s0 \<and>
          r \<in> set (receipts s0)"
    using assms pre by (auto simp: message_received_new rns_log_def emit_def)
  have 2: "r \<in> set (receipts (state_of (message_received m s)))"
    using assms(1) pre by (simp add: message_received_receipts)
  have 3: "message_received m s' =
          Returns (rns_log (''Message receipt <'' @ r @ ''>'') LOG_INFO s') \<and>
        calls (trace (state_of (message_received m s'))) = calls (trace s')"
    if "message_received m s = Raises e s'" for e s'
  proof -
    from 2 that have "r \<in> set (receipts s')" by simp
    then show ?thesis
      using assms(1) by (simp add: message_received_duplicate rns_log_def emit_def)
  qed
  from 1 2 3 show ?thesis by blast
qed

theorem receipt_recorded_before_callbacks_witness:
  "hexrep (msg_hash (msg_n 0)) \<notin>
     set (receipts (received (failing_callback 1) (initial [] None (\<lambda>h. None) ()))) \<and>
   message_received (msg_n 0) (received (failing_callback 1) (initial [] None (\<lambda>h. None) ())) =
     Raises (Exception ''connection closed'')
       (state_of (message_received (msg_n 0)
          (received (failing_callback 1) (initial [] None (\<lambda>h. None) ())))) \<and>
   receipts (state_of (message_received (msg_n 0)
       (received (failing_callback 1) (initial [] None (\<lambda>h. None) ())))) =
     [hexrep (msg_hash (msg_n 0))] \<and>
   calls (trace (state_of (message_received (msg_n 0)
       (state_of (message_received (msg_n 0)
          (received (failing_callback 1) (initial [] None (\<lambda>h. None) ()))))))) =
     calls (trace (state_of (message_received (msg_n 0)
          (received (failing_callback 1) (initial [] None (\<lambda>h. None) ())))))"
proof -
  let ?s = "received (failing_callback 1) (initial [] None (\<lambda>h. None) ()) :: unit lxmfapi"
  let ?r = "hexrep (msg_hash (msg_n 0))"
  have a: "?r \<notin> set (receipts ?s)" by (simp add: received_def)
  have u: "decode_utf8 (msg_content (msg_n 0)) = Inr ''hi''"
    by (simp add: msg_n_def decode_utf8_def char_of_def bit_Suc_0_iff)
  have b: "message_received (msg_n 0) ?s =
     Raises (Exception ''connection closed'') (state_of (message_received (msg_n 0) ?s))"
    using a by (simp add: message_received_new)
      (simp add: received_def u failing_callback_def Let_def)
  have c: "receipts (state_of (message_received (msg_n 0) ?s)) = [?r]"
    by (simp add: message_received_receipts check_and_record_cases received_def)
  from receipt_recorded_before_callbacks [OF refl a] b
  have "calls (trace (state_of (message_received (msg_n 0)
          (state_of (message_received (msg_n 0) ?s))))) =
        calls (trace (state_of (message_received (msg_n 0) ?s)))"
    by blast
  with a b c show ?thesis by simp
qed

section \<open>The callbacks\<close>


lemma call_all_raises:
  "call_all cbs m sn r s = Raises e s' \<Longrightarrow> decode_utf8 (msg_content m) = Inr txt \<Longrightarrow>
   \<exists>k<length cbs.
     calls (trace s') = calls (trace s) @
       map (\<lambda>cb. (cb_id cb, \<lparr>lxmf = m, reply = Send_to sn, sender = sn, content = txt, hash = r\<rparr>))
         (take (Suc k) cbs) \<and>
     (\<exists>w. fst (cb_fun (cbs ! k)
        \<lparr>lxmf = m, reply = Send_to sn, sender = sn, content = txt, hash = r\<rparr> w) = Some e)"
proof (induction cbs arbitrary: s)
  case Nil
  then show ?case by simp
next
  case (Cons cb rest)
  let ?ev = "\<lparr>lxmf = m, reply = Send_to sn, sender = sn, content = txt, hash = r\<rparr>"
  let ?s1 = "emit (Call (cb_id cb) ?ev) s"
  obtain x w where f: "cb_fun cb ?ev (world ?s1) = (x, w)" by (cases "cb_fun cb ?ev (world ?s1)")
  show ?case
  proof (cases x)
    case None
    with Cons.prems f have "call_all rest m sn r (?s1\<lparr>world := w\<rparr>) = Raises e s'"
      by (simp add: Let_def)
    from Cons.IH [OF this Cons.prems(2)] obtain k where k: "k < length rest"
      and c: "calls (trace s') = calls (trace (?s1\<lparr>world := w\<rparr>)) @
         map (\<lambda>cb. (cb_id cb, ?ev)) (take (Suc k) rest)"
      and w: "\<exists>w. fst (cb_fun (rest ! k) ?ev w) = Some e"
      by blast
    have "Suc k < length (cb # rest)" using k by simp
    moreover have "calls (trace s') = calls (trace s) @
         map (\<lambda>cb. (cb_id cb, ?ev)) (take (Suc (Suc k)) (cb # rest))"
      using c by (simp add: emit_def)
    moreover have "\<exists>w. fst (cb_fun ((cb # rest) ! Suc k) ?ev w) = Some e"
      using w by simp
    ultimately show ?thesis by blast
  next
    case (Some e')
    with Cons.prems f have e: "e' = e" and s': "s' = ?s1\<lparr>world := w\<rparr>"
      by (simp_all add: Let_def)
    have "calls (trace s') = calls (trace s) @
         map (\<lambda>cb. (cb_id cb, ?ev)) (take (Suc 0) (cb # rest))"
      by (simp add: s' emit_def)
    moreover have "fst (cb_fun ((cb # rest) ! 0) ?ev (world ?s1)) = Some e"
      using f Some e by simp
    ultimately show ?thesis by (intro exI [of _ 0]) auto
  qed
qed

lemma log_calls [simp]: "calls (trace (rns_log t l s)) = calls (trace s)"
  by (simp add: rns_log_def emit_def)

lemma raised_Some: "raised out = Some e \<Longrightarrow> out = Raises e (state_of out)"
  by (cases out) simp_all


lemmas eval_defs =
  message_received_def check_and_record_def received_def initial_def msg_n_def bad_msg_def
  sockets_def hexrep_def hex_digit_def char_of_def bit_Suc_0_iff decode_utf8_def
  message_callback_def failing_callback_def rns_log_def emit_def Let_def event_of_def

lemma sockets_callbacks [simp]: "delivery_callbacks (sockets cbs) = cbs"
proof -
  have "delivery_callbacks (foldl (\<lambda>s f. received f s) s0 cbs) = delivery_callbacks s0 @ cbs"
    for s0 :: "ws_world lxmfapi"
    by (induction cbs arbitrary: s0) (simp_all add: received_def)
  then show ?thesis by (simp add: sockets_def initial_def)
qed

lemma sockets_trace [simp]: "trace (sockets cbs) = []"
proof -
  have "trace (foldl (\<lambda>s f. received f s) s0 cbs) = trace s0"
    for s0 :: "ws_world lxmfapi"
    by (induction cbs arbitrary: s0) (simp_all add: received_def)
  then show ?thesis by (simp add: sockets_def initial_def)
qed

lemma sockets_world [simp]: "world (sockets cbs) = (\<lambda>k. [])"
proof -
  have "world (foldl (\<lambda>s f. received f s) s0 cbs) = world s0"
    for s0 :: "ws_world lxmfapi"
    by (induction cbs arbitrary: s0) (simp_all add: received_def)
  then show ?thesis by (simp add: sockets_def initial_def)
qed

lemma message_callback_id [simp]: "cb_id (message_callback k) = k"
  by (simp add: message_callback_def)

lemma failing_callback_id [simp]: "cb_id (failing_callback k) = k"
  by (simp add: failing_callback_def)




text \<open>An exception that leaves the handler for such a message is that of a callback.\<close>

lemma raise_comes_from_callback:
  assumes "hexrep (msg_hash m) \<notin> set (receipts s)"
    and "decode_utf8 (msg_content m) = Inr txt"
    and "message_received m s = Raises e s'"
  shows "\<exists>k<length (delivery_callbacks s).
     calls (trace s') = calls (trace s) @
       map (\<lambda>cb. (cb_id cb, event_of m txt)) (take (Suc k) (delivery_callbacks s)) \<and>
     (\<exists>w. fst (cb_fun (delivery_callbacks s ! k) (event_of m txt) w) = Some e)"
proof -
  let ?s0 = "(rns_log (''Message receipt <'' @ hexrep (msg_hash m) @ ''>'') LOG_INFO s)
          \<lparr>receipts := snd (check_and_record (hexrep (msg_hash m)) (receipts s))\<rparr>"
  have "call_all (delivery_callbacks s) m (hexrep (source_hash m)) (hexrep (msg_hash m)) ?s0 =
      Raises e s'"
    using assms(1,3) by (simp add: message_received_new)
  from call_all_raises [OF this assms(2)] show ?thesis
    by (simp add: event_of_def)
qed

lemma called_simps [simp]:
  "called [] ev w = w"
  "called (cb # cbs) ev w = called cbs ev (snd (cb_fun cb ev w))"
  by (simp_all add: called_def)

lemma call_all_fails:
  assumes "decode_utf8 (msg_content m) = Inr txt"
    and "ev = \<lparr>lxmf = m, reply = Send_to sn, sender = sn, content = txt, hash = r\<rparr>"
  shows "k < length cbs \<Longrightarrow>
     \<forall>j<k. fst (cb_fun (cbs ! j) ev (called (take j cbs) ev (world s))) = None \<Longrightarrow>
     fst (cb_fun (cbs ! k) ev (called (take k cbs) ev (world s))) = Some e \<Longrightarrow>
     raised (call_all cbs m sn r s) = Some e \<and>
     calls (trace (state_of (call_all cbs m sn r s))) =
       calls (trace s) @ map (\<lambda>cb. (cb_id cb, ev)) (take (Suc k) cbs) \<and>
     world (state_of (call_all cbs m sn r s)) = called (take (Suc k) cbs) ev (world s)"
proof (induction cbs arbitrary: k s)
  case Nil
  then show ?case by simp
next
  case (Cons cb rest)
  let ?s1 = "emit (Call (cb_id cb) ev) s"
  obtain x w where f: "cb_fun cb ev (world s) = (x, w)" by (cases "cb_fun cb ev (world s)")
  have ws: "world ?s1 = world s" by (simp add: emit_def)
  show ?case
  proof (cases k)
    case 0
    with Cons.prems(3) f have "x = Some e" by simp
    with f assms ws show ?thesis by (simp add: 0 Let_def emit_def)
  next
    case (Suc k')
    from Cons.prems(2) Suc have "fst (cb_fun ((cb # rest) ! 0) ev
        (called (take 0 (cb # rest)) ev (world s))) = None"
      by blast
    with f have x: "x = None" by simp
    from Cons.prems(1) Suc have a: "k' < length rest" by simp
    have b: "\<forall>j<k'. fst (cb_fun (rest ! j) ev
        (called (take j rest) ev (world (?s1\<lparr>world := w\<rparr>)))) = None"
    proof (intro allI impI)
      fix j assume "j < k'"
      with Suc have "Suc j < k" by simp
      with Cons.prems(2) have "fst (cb_fun ((cb # rest) ! Suc j) ev
          (called (take (Suc j) (cb # rest)) ev (world s))) = None"
        by blast
      with f show "fst (cb_fun (rest ! j) ev
          (called (take j rest) ev (world (?s1\<lparr>world := w\<rparr>)))) = None"
        by simp
    qed
    from Cons.prems(3) Suc f have c: "fst (cb_fun (rest ! k') ev
        (called (take k' rest) ev (world (?s1\<lparr>world := w\<rparr>)))) = Some e"
      by simp
    from Cons.IH [OF a b c] f x assms ws show ?thesis
      by (simp add: Suc Let_def emit_def)
  qed
qed

text \<open>
  Claim C2, as amended. For a message whose receipt is new and whose content is UTF-8,
  when the callbacks registered before the \<open>k\<close>-th return and the \<open>k\<close>-th raises \<open>e\<close>,
  \<^verbatim>\<open>_message_received\<close> raises \<open>e\<close> to its caller: the callbacks up to the \<open>k\<close>-th have
  been called with the event, once each and in the order of registration, and no
  callback registered after it has been called.
\<close>

theorem callback_failure_stops_delivery:
  assumes "hexrep (msg_hash m) \<notin> set (receipts s)"
    and "decode_utf8 (msg_content m) = Inr txt"
    and "k < length (delivery_callbacks s)"
    and "\<forall>j<k. fst (cb_fun (delivery_callbacks s ! j) (event_of m txt)
           (called (take j (delivery_callbacks s)) (event_of m txt) (world s))) = None"
    and "fst (cb_fun (delivery_callbacks s ! k) (event_of m txt)
           (called (take k (delivery_callbacks s)) (event_of m txt) (world s))) = Some e"
  shows "raised (message_received m s) = Some e \<and>
     calls (trace (state_of (message_received m s))) =
       calls (trace s) @
       map (\<lambda>cb. (cb_id cb, event_of m txt)) (take (Suc k) (delivery_callbacks s)) \<and>
     world (state_of (message_received m s)) =
       called (take (Suc k) (delivery_callbacks s)) (event_of m txt) (world s)"
proof -
  let ?s0 = "(rns_log (''Message receipt <'' @ hexrep (msg_hash m) @ ''>'') LOG_INFO s)
          \<lparr>receipts := snd (check_and_record (hexrep (msg_hash m)) (receipts s))\<rparr>"
  have r: "message_received m s =
      call_all (delivery_callbacks s) m (hexrep (source_hash m)) (hexrep (msg_hash m)) ?s0"
    using assms(1) by (simp add: message_received_new)
  have w: "world ?s0 = world s" by (simp add: rns_log_def emit_def)
  have e: "event_of m txt = \<lparr>lxmf = m, reply = Send_to (hexrep (source_hash m)),
      sender = hexrep (source_hash m), content = txt, hash = hexrep (msg_hash m)\<rparr>"
    by (simp add: event_of_def)
  have b: "\<forall>j<k. fst (cb_fun (delivery_callbacks s ! j) (event_of m txt)
      (called (take j (delivery_callbacks s)) (event_of m txt) (world ?s0))) = None"
    using assms(4) by (simp only: w)
  have c: "fst (cb_fun (delivery_callbacks s ! k) (event_of m txt)
      (called (take k (delivery_callbacks s)) (event_of m txt) (world ?s0))) = Some e"
    using assms(5) by (simp only: w)
  have t: "calls (trace ?s0) = calls (trace s)" by (simp add: rns_log_def emit_def)
  from call_all_fails [OF assms(2) e assms(3) b c]
  show ?thesis by (simp only: r w t)
qed

theorem callback_failure_stops_delivery_witness:
  "hexrep (msg_hash (msg_n 0)) \<notin>
     set (receipts (sockets [message_callback 1, failing_callback 2, message_callback 3])) \<and>
   decode_utf8 (msg_content (msg_n 0)) = Inr ''hi'' \<and>
   delivery_callbacks (sockets [message_callback 1, failing_callback 2, message_callback 3]) =
     [message_callback 1, failing_callback 2, message_callback 3] \<and>
   fst (cb_fun (message_callback 1) (event_of (msg_n 0) ''hi'') (\<lambda>k. [])) = None \<and>
   fst (cb_fun (failing_callback 2) (event_of (msg_n 0) ''hi'')
     (called [message_callback 1] (event_of (msg_n 0) ''hi'') (\<lambda>k. []))) =
     Some (Exception ''connection closed'') \<and>
   raised (message_received (msg_n 0)
     (sockets [message_callback 1, failing_callback 2, message_callback 3])) =
     Some (Exception ''connection closed'') \<and>
   calls (trace (state_of (message_received (msg_n 0)
     (sockets [message_callback 1, failing_callback 2, message_callback 3])))) =
     [(1, event_of (msg_n 0) ''hi''), (2, event_of (msg_n 0) ''hi'')] \<and>
   world (state_of (message_received (msg_n 0)
     (sockets [message_callback 1, failing_callback 2, message_callback 3]))) 1 =
     [[(''sender'', ''ab''), (''content'', ''hi''), (''hash'', ''00'')]] \<and>
   world (state_of (message_received (msg_n 0)
     (sockets [message_callback 1, failing_callback 2, message_callback 3]))) 3 = []"
proof -
  let ?cbs = "[message_callback 1, failing_callback 2, message_callback 3]"
  let ?S = "sockets ?cbs"
  let ?S' = "state_of (message_received (msg_n 0) ?S)"
  let ?ev = "event_of (msg_n 0) ''hi''"
  have a: "hexrep (msg_hash (msg_n 0)) \<notin> set (receipts ?S)" by (simp add: eval_defs)
  have b: "decode_utf8 (msg_content (msg_n 0)) = Inr ''hi''" by (simp add: eval_defs)
  have c: "delivery_callbacks ?S = ?cbs" by simp
  have k: "(1::nat) < length (delivery_callbacks ?S)" by simp
  have f1: "fst (cb_fun (message_callback 1) ?ev (\<lambda>k. [])) = None"
    by (simp add: message_callback_def)
  have f2: "fst (cb_fun (failing_callback 2) ?ev (called [message_callback 1] ?ev (\<lambda>k. []))) =
      Some (Exception ''connection closed'')"
    by (simp add: failing_callback_def)
  have before: "\<forall>j<1. fst (cb_fun (delivery_callbacks ?S ! j) ?ev
      (called (take j (delivery_callbacks ?S)) ?ev (world ?S))) = None"
    using f1 by simp
  have at: "fst (cb_fun (delivery_callbacks ?S ! 1) ?ev
      (called (take 1 (delivery_callbacks ?S)) ?ev (world ?S))) =
      Some (Exception ''connection closed'')"
    using f2 by simp
  from callback_failure_stops_delivery [OF a b k before at]
  have r: "raised (message_received (msg_n 0) ?S) = Some (Exception ''connection closed'')"
    and cs: "calls (trace ?S') = [(1, ?ev), (2, ?ev)]"
    and w: "world ?S' = called (take (Suc 1) (delivery_callbacks ?S)) ?ev (world ?S)"
    by simp_all
  have "?ev = \<lparr>lxmf = msg_n 0, reply = Send_to ''ab'', sender = ''ab'', content = ''hi'',
      hash = ''00''\<rparr>"
    by (simp add: event_of_def msg_n_def hexrep_def hex_digit_def char_of_def bit_Suc_0_iff)
  with w have w1: "world ?S' 1 = [[(''sender'', ''ab''), (''content'', ''hi''), (''hash'', ''00'')]]"
    and w3: "world ?S' 3 = []"
    by (simp_all add: message_callback_def failing_callback_def)
  from a b c f1 f2 r cs w1 w3 show ?thesis by blast
qed

text \<open>
  Claim C2 as it is stated fails: with a failing callback registered before a websocket
  subscriber, the exception leaves \<^verbatim>\<open>_message_received\<close>, and the subscriber's callback
  is not called: its queue stays empty.
\<close>

theorem failing_callback_starves_later_subscriber:
  "hexrep (msg_hash (msg_n 0)) \<notin>
     set (receipts (sockets [failing_callback 1, message_callback 2])) \<and>
   raised (message_received (msg_n 0) (sockets [failing_callback 1, message_callback 2])) =
     Some (Exception ''connection closed'') \<and>
   calls (trace (state_of
     (message_received (msg_n 0) (sockets [failing_callback 1, message_callback 2])))) =
     [(1, event_of (msg_n 0) ''hi'')] \<and>
   world (state_of
     (message_received (msg_n 0) (sockets [failing_callback 1, message_callback 2]))) 2 = []"
  by (simp add: eval_defs)

section \<open>The outbound queue\<close>

lemma waiting_simps [simp]:
  "pending s = None \<Longrightarrow> waiting s = []"
  "pending s = Some lxm \<Longrightarrow> waiting s = [lxm]"
  by (simp_all add: waiting_def)

lemma send_resolved:
  assumes "fromhex dest = Some h" and "length h = TRUNCATED_HASHLENGTH div 8"
    and "identities s h = Some ident"
  shows "send dest msg title s =
     (if length (queue s) < maxsize
      then Returns ((emit (Queue_put (lxm_for ident (local_hash s) msg title)) s)
             \<lparr>queue := queue s @ [lxm_for ident (local_hash s) msg title]\<rparr>)
      else Blocks ((emit (Queue_put (lxm_for ident (local_hash s) msg title)) s)
             \<lparr>pending := Some (lxm_for ident (local_hash s) msg title)\<rparr>))"
  using assms by (simp add: send_def put_def lxm_for_def Let_def emit_def)

lemma send_inv:
  assumes "queue_inv s" and "pending s = None"
  shows "queue_inv (state_of (send d m t s))"
  using assms
  by (auto simp: queue_inv_def waiting_def send_def Let_def rns_log_def emit_def put_def
        split: option.splits)

lemma serve_inv:
  assumes "queue_inv s" and "pending s = None"
  shows "queue_inv (serve r s)"
proof (cases r)
  case (Post x)
  with send_inv [OF assms] show ?thesis by (simp add: send_message_state)
next
  case (Register f)
  with assms show ?thesis by (simp add: queue_inv_def waiting_def received_def)
next
  case (Unregister f)
  with assms show ?thesis by (simp add: queue_inv_def waiting_def)
qed

lemma drain_inv:
  "queue_inv s \<Longrightarrow> backlog s = [] \<Longrightarrow> queue_inv (drain rs s)"
proof (induction rs arbitrary: s)
  case Nil
  then show ?case by simp
next
  case (Cons r rs)
  show ?case
  proof (cases "pending s")
    case None
    from serve_inv [OF Cons.prems(1) None] Cons.prems(2)
    have "queue_inv (serve r s)" and "backlog (serve r s) = []"
      by (simp_all add: serve_frame)
    then have "queue_inv (drain rs (serve r s))" by (rule Cons.IH)
    with None show ?thesis by simp
  next
    case (Some lxm)
    with Cons.prems show ?thesis by (simp add: queue_inv_def waiting_def)
  qed
qed

lemma resume_inv:
  assumes "length (queue s) \<le> maxsize"
    and "enqueued (trace s) = handed (trace s) @ queue s @ waiting s"
    and "pending s = None \<longrightarrow> backlog s = []"
  shows "queue_inv (resume s)"
proof (cases "pending s")
  case None
  with assms show ?thesis by (simp add: resume_def queue_inv_def)
next
  case (Some lxm)
  show ?thesis
  proof (cases "length (queue s) < maxsize")
    case True
    let ?s2 = "s\<lparr>queue := queue s @ [lxm], pending := None, backlog := []\<rparr>"
    from True Some assms have "queue_inv ?s2" by (simp add: queue_inv_def)
    then have "queue_inv (drain (backlog s) ?s2)" by (rule drain_inv) simp
    with True Some show ?thesis by (simp add: resume_def put_def)
  next
    case False
    with Some assms show ?thesis by (simp add: resume_def put_def queue_inv_def)
  qed
qed

lemma process_queue_queue:
  "queue (state_of (process_queue a b s)) = drop 1 (queue s) \<and>
   handed (trace (state_of (process_queue a b s))) = handed (trace s) @ take 1 (queue s) \<and>
   enqueued (trace (state_of (process_queue a b s))) = enqueued (trace s) \<and>
   pending (state_of (process_queue a b s)) = pending s \<and>
   backlog (state_of (process_queue a b s)) = backlog s"
  by (cases "queue s") (simp_all add: process_queue_def announce_frame announce_waiting emit_def)

text \<open>The state in which an iteration of the processor leaves the queue to the event loop.\<close>

lemma step_tick:
  "\<exists>s1. step s (Tick a b) = resume s1 \<and> pending s1 = pending s \<and> backlog s1 = backlog s \<and>
     enqueued (trace s1) = enqueued (trace s) \<and>
     (if processor_alive s
      then queue s1 = drop 1 (queue s) \<and> handed (trace s1) = handed (trace s) @ take 1 (queue s)
      else s1 = s)"
proof (cases "processor_alive s")
  case True
  with process_queue_queue [of a b s] show ?thesis
    by (cases "process_queue a b s") auto
next
  case False
  then show ?thesis by simp
qed

lemma step_queue_inv:
  assumes "queue_inv s"
  shows "queue_inv (step s a)"
proof (cases a)
  case (Inbound m)
  with assms show ?thesis
    by (simp add: queue_inv_def waiting_def message_received_frame message_received_waiting)
next
  case (Tick a b)
  from step_tick [of s a b] obtain s1 where s1: "step s (Tick a b) = resume s1"
    and p: "pending s1 = pending s" and b: "backlog s1 = backlog s"
    and e: "enqueued (trace s1) = enqueued (trace s)"
    and q: "if processor_alive s
      then queue s1 = drop 1 (queue s) \<and> handed (trace s1) = handed (trace s) @ take 1 (queue s)
      else s1 = s"
    by blast
  have w: "waiting s1 = waiting s" by (simp add: waiting_def p)
  have "length (queue s1) \<le> maxsize"
    using q assms by (auto simp: queue_inv_def split: if_splits)
  moreover have "enqueued (trace s1) = handed (trace s1) @ queue s1 @ waiting s1"
  proof (cases "processor_alive s")
    case True
    with q have "handed (trace s1) @ queue s1 = handed (trace s) @ queue s"
      by (cases "queue s") simp_all
    with assms e w show ?thesis by (simp add: queue_inv_def)
  next
    case False
    with q assms show ?thesis by (simp add: queue_inv_def)
  qed
  moreover have "pending s1 = None \<longrightarrow> backlog s1 = []"
    using assms p b by (simp add: queue_inv_def)
  ultimately have "queue_inv (resume s1)" by (rule resume_inv)
  with s1 Tick show ?thesis by simp
next
  case (Request r)
  show ?thesis
  proof (cases "pending s")
    case None
    with serve_inv [OF assms None] Request show ?thesis by simp
  next
    case (Some lxm)
    with assms Request show ?thesis by (simp add: queue_inv_def waiting_def)
  qed
qed

lemma run_queue_inv:
  "queue_inv s \<Longrightarrow> queue_inv (run acts s)"
proof (induction acts arbitrary: s)
  case Nil
  then show ?case by simp
next
  case (Cons a acts)
  from step_queue_inv [OF Cons.prems, of a] Cons.IH [of "step s a"] show ?case by simp
qed

lemma initial_queue_inv: "queue_inv (initial loc af ids w)"
  by (simp add: queue_inv_def initial_def waiting_def)

text \<open>On a full queue the event loop cannot add to the queue, whatever it is asked.\<close>

lemma serve_full:
  assumes "length (queue s) = maxsize"
  shows "queue (serve r s) = queue s"
proof (cases r)
  case (Post x)
  have "queue (state_of (send d m t s)) = queue s" for d m t
    using assms
    by (auto simp: send_def Let_def rns_log_def emit_def put_def split: option.splits)
  with Post show ?thesis by (simp add: send_message_state)
next
  case (Register f)
  then show ?thesis by (simp add: received_def)
next
  case (Unregister f)
  then show ?thesis by simp
qed

lemma drain_full:
  "length (queue s) = maxsize \<Longrightarrow> queue (drain rs s) = queue s"
  by (induction rs arbitrary: s) (simp_all add: serve_full split: option.splits)

lemma tick_queue:
  assumes "queue_inv s" and "processor_alive s"
  shows "queue (step s (Tick a b)) = drop 1 (queue s) @ waiting s \<and>
         handed (trace (step s (Tick a b))) = handed (trace s) @ take 1 (queue s)"
proof -
  from step_tick [of s a b] assms(2) obtain s1 where s1: "step s (Tick a b) = resume s1"
    and p: "pending s1 = pending s"
    and q: "queue s1 = drop 1 (queue s)"
    and h: "handed (trace s1) = handed (trace s) @ take 1 (queue s)"
    by auto
  have w: "waiting s1 = waiting s" by (simp add: waiting_def p)
  have "queue (resume s1) = queue s1 @ waiting s1"
  proof (cases "pending s1")
    case None
    then show ?thesis by (simp add: resume_def)
  next
    case (Some lxm)
    with p have "pending s = Some lxm" by simp
    with assms(1) have l: "length (queue s) = maxsize" by (simp add: queue_inv_def)
    with q have "length (queue s1 @ [lxm]) = maxsize" by (simp add: maxsize_def)
    then have "queue (drain (backlog s1)
        (s1\<lparr>queue := queue s1 @ [lxm], pending := None, backlog := []\<rparr>)) = queue s1 @ [lxm]"
      by (subst drain_full) simp_all
    with Some l q show ?thesis by (simp add: resume_def put_def maxsize_def)
  qed
  with s1 q w h show ?thesis by (simp add: resume_frame)
qed

lemma dest16:
  "fromhex ''00112233445566778899aabbccddeeff'' =
     Some [0x00, 0x11, 0x22, 0x33, 0x44, 0x55, 0x66, 0x77, 0x88, 0x99, 0xaa, 0xbb, 0xcc, 0xdd,
           0xee, 0xff]"
  by (simp add: hex_val_def is_space_def)

lemma str_nat_digit: "n < 10 \<Longrightarrow> str_nat n = [char_of (48 + n)]"
  by (simp add: str_nat.simps)

lemmas post_defs =
  run_def post_n_def send_message_def send_def put_def maxsize_def hex_val_def is_space_def
  TRUNCATED_HASHLENGTH_def initial_def emit_def rns_log_def str_nat.simps char_of_def
  bit_Suc_0_iff Let_def

lemma five_queue: "map lxm_content (queue five_posts) = [''1'', ''2'', ''3'', ''4'', ''5'']"
  by (simp add: five_posts_def post_defs)

lemma five_pending: "pending five_posts = None"
  by (simp add: five_posts_def post_defs)

lemma five_ids: "identities five_posts h = Some (Identity h)"
  by (simp add: five_posts_def post_defs)

lemma five_local: "local_hash five_posts = [0x01]"
  by (simp add: five_posts_def post_defs)

lemma six_queue: "map lxm_content (queue six_posts) = [''1'', ''2'', ''3'', ''4'', ''5'']"
  by (simp add: six_posts_def post_defs)

lemma six_pending: "map_option lxm_content (pending six_posts) = Some ''6''"
  by (simp add: six_posts_def post_defs)

lemma six_handed: "handed (trace six_posts) = []"
  by (simp add: six_posts_def post_defs)

lemma six_alive: "processor_alive six_posts"
  by (simp add: six_posts_def post_defs)

lemma six_backlog: "backlog six_posts = []"
  by (simp add: six_posts_def post_defs)

lemmas tick_defs = process_queue_def announce_def read_deadline_def py_int_str_int resume_def

lemma later_queue: "map lxm_content (queue later) = [''3'', ''4'', ''5'', ''6'', ''7'']"
  by (simp add: later_def six_posts_def post_defs tick_defs)

lemma later_handed: "map lxm_content (handed (trace later)) = [''1'', ''2'']"
  by (simp add: later_def six_posts_def post_defs tick_defs)

lemma later_enq:
  "map lxm_content (enqueued (trace later)) = [''1'', ''2'', ''3'', ''4'', ''5'', ''6'', ''7'']"
  by (simp add: later_def six_posts_def post_defs tick_defs)

lemma later_pending: "pending later = None \<and> backlog later = []"
  by (simp add: later_def six_posts_def post_defs tick_defs)

text \<open>
  Claim C6. In every state the program reaches from its initial state: the queue holds
  at most 5 messages; the messages \<^verbatim>\<open>put\<close> has been called with are, in order, those
  handed to the router, those in the queue, and that of the \<^verbatim>\<open>put\<close> that has not
  returned, so none is dropped and the router gets them in the order of their \<^verbatim>\<open>put\<close>;
  a \<^verbatim>\<open>put\<close> waits on a full queue only; \<^verbatim>\<open>send\<close> to a destination whose identity is
  known appends its message when the queue holds fewer than 5, and when it holds 5 does
  not return, its message pending; while it waits the event loop handles no request, and
  a request that arrives joins the backlog; one iteration of the processor hands the
  first message of the queue, and no other, to the router, and the message of the
  waiting \<^verbatim>\<open>put\<close> is then the last of the queue.
\<close>

theorem queue_bounded_fifo:
  "let s = run acts (initial loc af ids w) in
     maxsize = 5 \<and> length (queue s) \<le> 5 \<and>
     enqueued (trace s) = handed (trace s) @ queue s @ waiting s \<and>
     (pending s \<noteq> None \<longrightarrow> length (queue s) = 5) \<and>
     (\<forall>dest msg title h ident.
        pending s = None \<and> fromhex dest = Some h \<and> length h = TRUNCATED_HASHLENGTH div 8 \<and>
        identities s h = Some ident \<longrightarrow>
        send dest msg title s =
          (if length (queue s) < 5
           then Returns ((emit (Queue_put (lxm_for ident (local_hash s) msg title)) s)
                  \<lparr>queue := queue s @ [lxm_for ident (local_hash s) msg title]\<rparr>)
           else Blocks ((emit (Queue_put (lxm_for ident (local_hash s) msg title)) s)
                  \<lparr>pending := Some (lxm_for ident (local_hash s) msg title)\<rparr>))) \<and>
     (\<forall>r. pending s \<noteq> None \<longrightarrow> step s (Request r) = s\<lparr>backlog := backlog s @ [r]\<rparr>) \<and>
     (\<forall>now1 now2. processor_alive s \<longrightarrow>
        queue (step s (Tick now1 now2)) = drop 1 (queue s) @ waiting s \<and>
        handed (trace (step s (Tick now1 now2))) = handed (trace s) @ take 1 (queue s))"
proof -
  let ?s = "run acts (initial loc af ids w)"
  have m: "maxsize = 5" by (simp add: maxsize_def)
  have i: "queue_inv ?s" by (rule run_queue_inv) (rule initial_queue_inv)
  then have i1: "length (queue ?s) \<le> 5"
    and i2: "enqueued (trace ?s) = handed (trace ?s) @ queue ?s @ waiting ?s"
    and i3: "pending ?s \<noteq> None \<longrightarrow> length (queue ?s) = 5"
    by (simp_all add: queue_inv_def m)
  have s: "send dest msg title ?s =
          (if length (queue ?s) < 5
           then Returns ((emit (Queue_put (lxm_for ident (local_hash ?s) msg title)) ?s)
                  \<lparr>queue := queue ?s @ [lxm_for ident (local_hash ?s) msg title]\<rparr>)
           else Blocks ((emit (Queue_put (lxm_for ident (local_hash ?s) msg title)) ?s)
                  \<lparr>pending := Some (lxm_for ident (local_hash ?s) msg title)\<rparr>))"
    if "pending ?s = None \<and> fromhex dest = Some h \<and> length h = TRUNCATED_HASHLENGTH div 8 \<and>
        identities ?s h = Some ident" for dest msg title h ident
    using that send_resolved [of dest h ?s ident msg title] by (simp add: m)
  have r: "step ?s (Request r) = ?s\<lparr>backlog := backlog ?s @ [r]\<rparr>"
    if "pending ?s \<noteq> None" for r
    using that by auto
  have t: "queue (step ?s (Tick now1 now2)) = drop 1 (queue ?s) @ waiting ?s \<and>
        handed (trace (step ?s (Tick now1 now2))) = handed (trace ?s) @ take 1 (queue ?s)"
    if "processor_alive ?s" for now1 now2
    using i that by (rule tick_queue)
  from m i1 i2 i3 s r t show ?thesis unfolding Let_def by (intro conjI allI impI) blast+
qed

theorem queue_bounded_fifo_witness:
  "fromhex ''00112233445566778899aabbccddeeff'' =
     Some [0x00, 0x11, 0x22, 0x33, 0x44, 0x55, 0x66, 0x77, 0x88, 0x99, 0xaa, 0xbb, 0xcc, 0xdd,
           0xee, 0xff] \<and>
   pending five_posts = None \<and>
   map lxm_content (queue five_posts) = [''1'', ''2'', ''3'', ''4'', ''5''] \<and>
   send ''00112233445566778899aabbccddeeff'' ''6'' ''Reply'' five_posts =
     Blocks ((emit (Queue_put (lxm_for (Identity [0x00, 0x11, 0x22, 0x33, 0x44, 0x55, 0x66, 0x77,
                0x88, 0x99, 0xaa, 0xbb, 0xcc, 0xdd, 0xee, 0xff]) [0x01] ''6'' ''Reply''))
              five_posts)
       \<lparr>pending := Some (lxm_for (Identity [0x00, 0x11, 0x22, 0x33, 0x44, 0x55, 0x66, 0x77,
                0x88, 0x99, 0xaa, 0xbb, 0xcc, 0xdd, 0xee, 0xff]) [0x01] ''6'' ''Reply'')\<rparr>) \<and>
   processor_alive six_posts \<and>
   map lxm_content (queue six_posts) = [''1'', ''2'', ''3'', ''4'', ''5''] \<and>
   map_option lxm_content (pending six_posts) = Some ''6'' \<and>
   map lxm_content (enqueued (trace six_posts)) = [''1'', ''2'', ''3'', ''4'', ''5'', ''6''] \<and>
   step six_posts (post_n 7) =
     six_posts\<lparr>backlog :=
       [Post \<lparr>req_destination = ''00112233445566778899aabbccddeeff'', req_message = ''7'',
              req_title = ''Reply''\<rparr>]\<rparr> \<and>
   map lxm_content (queue (step six_posts (Tick 1700000000 1700000000))) =
     [''2'', ''3'', ''4'', ''5'', ''6''] \<and>
   map lxm_content (handed (trace (step six_posts (Tick 1700000000 1700000000)))) = [''1''] \<and>
   map lxm_content (queue later) = [''3'', ''4'', ''5'', ''6'', ''7''] \<and>
   map lxm_content (handed (trace later)) = [''1'', ''2''] \<and>
   map lxm_content (enqueued (trace later)) = [''1'', ''2'', ''3'', ''4'', ''5'', ''6'', ''7''] \<and>
   pending later = None"
proof -
  let ?h = "[0x00, 0x11, 0x22, 0x33, 0x44, 0x55, 0x66, 0x77, 0x88, 0x99, 0xaa, 0xbb, 0xcc, 0xdd,
           0xee, 0xff] :: 8 word list"
  let ?tick = "step six_posts (Tick 1700000000 1700000000)"
  note f = queue_bounded_fifo [of "[post_n 1, post_n 2, post_n 3, post_n 4, post_n 5]"
      "[0x01]" None "\<lambda>h. Some (Identity h)" "()", unfolded Let_def, folded five_posts_def]
  note t = queue_bounded_fifo [of "[post_n 1, post_n 2, post_n 3, post_n 4, post_n 5, post_n 6]"
      "[0x01]" None "\<lambda>h. Some (Identity h)" "()", unfolded Let_def, folded six_posts_def]
  have l: "length ?h = TRUNCATED_HASHLENGTH div 8" by (simp add: TRUNCATED_HASHLENGTH_def)
  have len: "length (queue five_posts) = 5"
    using five_queue [THEN arg_cong, of length] by simp
  from f five_pending dest16 l five_ids [of ?h]
  have "send ''00112233445566778899aabbccddeeff'' ''6'' ''Reply'' five_posts =
      (if length (queue five_posts) < 5
       then Returns ((emit (Queue_put (lxm_for (Identity ?h) (local_hash five_posts) ''6'' ''Reply''))
              five_posts)
              \<lparr>queue := queue five_posts @
                 [lxm_for (Identity ?h) (local_hash five_posts) ''6'' ''Reply'']\<rparr>)
       else Blocks ((emit (Queue_put (lxm_for (Identity ?h) (local_hash five_posts) ''6'' ''Reply''))
              five_posts)
              \<lparr>pending := Some (lxm_for (Identity ?h) (local_hash five_posts) ''6'' ''Reply'')\<rparr>))"
    by blast
  then have 1: "send ''00112233445566778899aabbccddeeff'' ''6'' ''Reply'' five_posts =
      Blocks ((emit (Queue_put (lxm_for (Identity ?h) [0x01] ''6'' ''Reply'')) five_posts)
              \<lparr>pending := Some (lxm_for (Identity ?h) [0x01] ''6'' ''Reply'')\<rparr>)"
    by (simp only: len five_local less_irrefl if_False)
  from six_pending obtain m6 where p: "pending six_posts = Some m6" and c: "lxm_content m6 = ''6''"
    by auto
  from p have w: "waiting six_posts = [m6]" by simp
  from t have e: "enqueued (trace six_posts) =
      handed (trace six_posts) @ queue six_posts @ waiting six_posts"
    by blast
  have 2: "map lxm_content (enqueued (trace six_posts)) =
      [''1'', ''2'', ''3'', ''4'', ''5'', ''6'']"
    by (simp only: e six_handed w append_Nil map_append six_queue list.map c) simp
  from p have "pending six_posts \<noteq> None" by simp
  with t have "step six_posts (Request (Post \<lparr>req_destination = ''00112233445566778899aabbccddeeff'',
      req_message = ''7'', req_title = ''Reply''\<rparr>)) =
      six_posts\<lparr>backlog := backlog six_posts @
       [Post \<lparr>req_destination = ''00112233445566778899aabbccddeeff'', req_message = ''7'',
              req_title = ''Reply''\<rparr>]\<rparr>"
    by blast
  moreover have "post_n 7 = (Request (Post \<lparr>req_destination = ''00112233445566778899aabbccddeeff'',
      req_message = ''7'', req_title = ''Reply''\<rparr>) :: unit action)"
    by (simp add: post_n_def str_nat.simps char_of_def bit_Suc_0_iff)
  ultimately have 3: "step six_posts (post_n 7) =
     six_posts\<lparr>backlog :=
       [Post \<lparr>req_destination = ''00112233445566778899aabbccddeeff'', req_message = ''7'',
              req_title = ''Reply''\<rparr>]\<rparr>"
    by (simp only: six_backlog append_Nil)
  from t six_alive
  have q: "queue ?tick = drop 1 (queue six_posts) @ waiting six_posts"
    and h: "handed (trace ?tick) = handed (trace six_posts) @ take 1 (queue six_posts)"
    by blast+
  have 4: "map lxm_content (queue ?tick) = [''2'', ''3'', ''4'', ''5'', ''6'']"
  proof -
    have "map lxm_content (queue ?tick) =
        drop 1 (map lxm_content (queue six_posts)) @ [''6'']"
      by (simp only: q w map_append drop_map list.map c)
    then show ?thesis by (simp only: six_queue) simp
  qed
  have 5: "map lxm_content (handed (trace ?tick)) = [''1'']"
  proof -
    have "map lxm_content (handed (trace ?tick)) = take 1 (map lxm_content (queue six_posts))"
      by (simp only: h six_handed append_Nil take_map)
    then show ?thesis by (simp only: six_queue) simp
  qed
  from later_pending have 6: "pending later = None" by blast
  from dest16 five_pending five_queue 1 six_alive six_queue six_pending 2 3 4 5
    later_queue later_handed later_enq 6
  show ?thesis by blast
qed

section \<open>The handler of \<^verbatim>\<open>POST /send\<close>\<close>

text \<open>
  Claim C1. What the code does for a destination that is not hexadecimal or that
  decodes to a length other than 16: \<^verbatim>\<open>send\<close> logs an error and returns, so the handler
  answers 200, \<^verbatim>\<open>message queued\<close>, and not 400. The queue is unchanged.
\<close>

theorem send_message_invalid_destination:
  assumes "fromhex dest = None \<or>
     (\<exists>h. fromhex dest = Some h \<and> length h \<noteq> TRUNCATED_HASHLENGTH div 8)"
  shows "\<exists>s' t. send_message \<lparr>req_destination = dest, req_message = msg, req_title = title\<rparr> s =
            (Some (Response 200 [(''status'', ''message queued'')]), s') \<and>
          queue s' = queue s \<and> trace s' = trace s @ [Log t LOG_ERROR]"
  using assms
  by (auto simp: send_message_def send_def rns_log_def emit_def)

theorem send_message_invalid_destination_witness:
  "fromhex ''zz'' = None \<and>
   send_message (request ''zz'') (initial [0x01] None (\<lambda>h. Some (Identity h)) ()) =
     (Some (Response 200 [(''status'', ''message queued'')]),
      rns_log ''Invalid destination hash'' LOG_ERROR
        (initial [0x01] None (\<lambda>h. Some (Identity h)) ())) \<and>
   fromhex ''0011'' = Some [0x00, 0x11] \<and>
   send_message (request ''0011'') (initial [0x01] None (\<lambda>h. Some (Identity h)) ()) =
     (Some (Response 200 [(''status'', ''message queued'')]),
      rns_log ''Invalid destination hash length'' LOG_ERROR
        (initial [0x01] None (\<lambda>h. Some (Identity h)) ())) \<and>
   queue (rns_log ''Invalid destination hash length'' LOG_ERROR
        (initial [0x01] None (\<lambda>h. Some (Identity h)) ())) = []"
proof -
  let ?s = "initial [0x01] None (\<lambda>h. Some (Identity h)) () :: unit lxmfapi"
  have a: "fromhex ''zz'' = None" by (simp add: hex_val_def is_space_def)
  have b: "fromhex ''0011'' = Some [0x00, 0x11]" by (simp add: hex_val_def is_space_def)
  from a have "fromhex ''zz'' = None \<or>
     (\<exists>h. fromhex ''zz'' = Some h \<and> length h \<noteq> TRUNCATED_HASHLENGTH div 8)" by simp
  from send_message_invalid_destination [OF this, of "''hello''" "''Reply''" ?s]
  obtain s' t where "send_message (request ''zz'') ?s =
      (Some (Response 200 [(''status'', ''message queued'')]), s')"
    by (auto simp: request_def)
  moreover have "snd (send_message (request ''zz'') ?s) =
      rns_log ''Invalid destination hash'' LOG_ERROR ?s"
    by (simp add: send_message_def send_def request_def hex_val_def is_space_def)
  ultimately have 1: "send_message (request ''zz'') ?s =
     (Some (Response 200 [(''status'', ''message queued'')]),
      rns_log ''Invalid destination hash'' LOG_ERROR ?s)"
    by simp
  have 2: "send_message (request ''0011'') ?s =
     (Some (Response 200 [(''status'', ''message queued'')]),
      rns_log ''Invalid destination hash length'' LOG_ERROR ?s)"
    by (simp add: send_message_def send_def request_def hex_val_def is_space_def
        TRUNCATED_HASHLENGTH_def)
  have 3: "queue (rns_log ''Invalid destination hash length'' LOG_ERROR ?s) = []"
    by (simp add: rns_log_def emit_def)
  from a b 1 2 3 show ?thesis by simp
qed

text \<open>
  Claim C5. What the code does for a destination of 16 bytes whose identity is not
  known: \<^verbatim>\<open>send\<close> logs, requests a path once, logs and returns, so the handler answers
  200, \<^verbatim>\<open>message queued\<close>, and not 400. The queue is unchanged.
\<close>

theorem send_message_unresolved_identity:
  assumes "fromhex dest = Some h" and "length h = TRUNCATED_HASHLENGTH div 8"
    and "identities s h = None"
  shows "\<exists>s'. send_message \<lparr>req_destination = dest, req_message = msg, req_title = title\<rparr> s =
            (Some (Response 200 [(''status'', ''message queued'')]), s') \<and>
          queue s' = queue s \<and>
          trace s' = trace s @
            [Log ''Could not recall an Identity for the requested address.'' LOG_ERROR,
             Request_path h,
             Log ''OK, a path was requested.'' LOG_INFO]"
  using assms
  by (simp add: send_message_def send_def rns_log_def emit_def)

theorem send_message_unresolved_identity_witness:
  "fromhex ''00112233445566778899aabbccddeeff'' =
     Some [0x00, 0x11, 0x22, 0x33, 0x44, 0x55, 0x66, 0x77, 0x88, 0x99, 0xaa, 0xbb, 0xcc, 0xdd,
           0xee, 0xff] \<and>
   length [0x00, 0x11, 0x22, 0x33, 0x44, 0x55, 0x66, 0x77, 0x88, 0x99, 0xaa, 0xbb, 0xcc, 0xdd,
           0xee, 0xff :: 8 word] = TRUNCATED_HASHLENGTH div 8 \<and>
   fst (send_message (request ''00112233445566778899aabbccddeeff'')
      (initial [0x01] None (\<lambda>h. None) ())) =
     Some (Response 200 [(''status'', ''message queued'')]) \<and>
   queue (snd (send_message (request ''00112233445566778899aabbccddeeff'')
      (initial [0x01] None (\<lambda>h. None) ()))) = [] \<and>
   trace (snd (send_message (request ''00112233445566778899aabbccddeeff'')
      (initial [0x01] None (\<lambda>h. None) ()))) =
     [Log ''Could not recall an Identity for the requested address.'' LOG_ERROR,
      Request_path [0x00, 0x11, 0x22, 0x33, 0x44, 0x55, 0x66, 0x77, 0x88, 0x99, 0xaa, 0xbb,
                    0xcc, 0xdd, 0xee, 0xff],
      Log ''OK, a path was requested.'' LOG_INFO]"
proof -
  let ?s = "initial [0x01] None (\<lambda>h. None) () :: unit lxmfapi"
  let ?h = "[0x00, 0x11, 0x22, 0x33, 0x44, 0x55, 0x66, 0x77, 0x88, 0x99, 0xaa, 0xbb, 0xcc, 0xdd,
           0xee, 0xff] :: 8 word list"
  have l: "length ?h = TRUNCATED_HASHLENGTH div 8" by (simp add: TRUNCATED_HASHLENGTH_def)
  have i: "identities ?s ?h = None" by (simp add: initial_def)
  from send_message_unresolved_identity [OF dest16 l i, of "''hello''" "''Reply''"]
  show ?thesis using dest16 l by (auto simp: request_def)
qed

end
